theory Spec2Isabelle
  imports
    Complex_Main
    "HOL-Library.Sublist"
    "HOL-Library.Multiset"
    "HOL-Library.Product_Lexorder"
    "HOL-Library.Option_ord"
    "HOL-Library.Monad_Syntax"
begin

section \<open>Data model\<close>

text \<open>
  The form handler of \<open>create_event_tab\<close> builds a dictionary with the six keys below
  (all values are strings); \<open>add_event\<close> stores it with one key more, \<open>'id'\<close>.
  The id is the float returned by \<open>datetime.now().timestamp()\<close>. The program only
  compares ids with \<open>==\<close> and \<open>!=\<close>, and on finite floats these agree with equality of
  the numbers they denote, so an id is modelled as the real number it denotes.
  The field is called \<open>ident\<close> because \<open>id\<close> is the identity function of HOL.
\<close>

record event_data =
  title :: string
  date :: string
  time :: string
  location :: string
  category :: string
  description :: string

record event = event_data +
  ident :: real

text \<open>\<open>{**event_data, 'id': i}\<close>, and \<open>event_data['id'] = i\<close> on a dictionary without id.\<close>

definition with_id :: "event_data \<Rightarrow> real \<Rightarrow> event" where
  "with_id event_data i =
     \<lparr>title = title event_data, date = date event_data, time = time event_data,
      location = location event_data, category = category event_data,
      description = description event_data, ident = i\<rparr>"

datatype tab = Create_Event | View_Events

text \<open>
  \<open>st.session_state\<close>: the event list (\<open>load_events\<close> makes it the empty list when it is
  missing), the id being edited (\<open>None\<close> in create mode) and the tab shown.
\<close>

record session =
  events :: "event list"
  editing_id :: "real option"
  current_tab :: tab

definition init_session :: session where
  "init_session = \<lparr>events = [], editing_id = None, current_tab = Create_Event\<rparr>"

text \<open>
  What the program tells the user: \<open>st.error("Event Title is required!")\<close> and the three
  toasts. The program raises no exception of its own in the store operations, so the
  message is the only report of success or failure.
\<close>

datatype notice = Error_title_required | Toast_updated | Toast_created | Toast_deleted

section \<open>Store operations\<close>

text \<open>
  \<open>next((i for i, event in enumerate(events) if event['id'] == editing_id), -1)\<close>:
  the index of the first event with that id, or \<open>-1\<close>. The counter \<open>i\<close> is the index of
  the head of the list still to be scanned.
\<close>

fun next_index :: "real \<Rightarrow> event list \<Rightarrow> nat \<Rightarrow> int" where
  "next_index eid [] i = - 1"
| "next_index eid (event # rest) i =
     (if ident event = eid then int i else next_index eid rest (Suc i))"

text \<open>
  \<open>add_event\<close>. The argument \<open>now\<close> is the reading of \<open>datetime.now().timestamp()\<close>,
  which only the create branch takes.
\<close>

definition add_event :: "real \<Rightarrow> event_data \<Rightarrow> session \<Rightarrow> notice \<times> session" where
  "add_event now event_data s =
     (case editing_id s of
        Some eid \<Rightarrow>
          (let index = next_index eid (events s) 0;
               evs = (if index \<noteq> - 1
                      then (events s)[nat index := with_id event_data eid]
                      else events s)
           in (Toast_updated,
               s\<lparr>events := evs, editing_id := None, current_tab := View_Events\<rparr>))
      | None \<Rightarrow>
          (Toast_created,
           s\<lparr>events := events s @ [with_id event_data now], current_tab := View_Events\<rparr>))"

text \<open>
  The submit branch of \<open>create_event_tab\<close> (lines 97 to 109): \<open>event_data\<close> is the
  dictionary built from the widgets, whose title is tested before \<open>add_event\<close> is called.
\<close>

definition submit_form :: "real \<Rightarrow> event_data \<Rightarrow> session \<Rightarrow> notice \<times> session" where
  "submit_form now event_data s =
     (if title event_data = [] then (Error_title_required, s)
      else add_event now event_data s)"

text \<open>\<open>delete_event\<close>: the list comprehension keeps every event with another id.\<close>

definition delete_event :: "real \<Rightarrow> session \<Rightarrow> notice \<times> session" where
  "delete_event event_id s =
     (Toast_deleted, s\<lparr>events := filter (\<lambda>event. ident event \<noteq> event_id) (events s)\<rparr>)"

definition start_edit_event :: "real \<Rightarrow> session \<Rightarrow> session" where
  "start_edit_event event_id s = s\<lparr>editing_id := Some event_id, current_tab := Create_Event\<rparr>"

definition get_event_by_id :: "real \<Rightarrow> session \<Rightarrow> event option" where
  "get_event_by_id event_id s = find (\<lambda>e. ident e = event_id) (events s)"

section \<open>Sessions\<close>

text \<open>
  What a user can do to a session. \<open>main\<close> calls \<open>create_event_tab\<close>, and with it the
  form handler, only while \<open>current_tab\<close> is \<open>'Create Event'\<close>; it calls
  \<open>view_events_tab\<close>, which draws the Edit and Delete buttons of the events it lists,
  only while \<open>current_tab\<close> is \<open>'View Events'\<close>. A submission therefore acts on the
  Create tab alone, and Edit and Delete act on the View tab alone and on the id of a
  stored event (the view lists the stored events that pass its filter; the model lets
  every stored id be chosen); elsewhere the widget is not on the page and the action
  changes nothing.
  \<open>Submit\<close> carries the reading of the clock that \<open>add_event\<close> would take.
\<close>

datatype action = Submit real event_data | Start_edit real | Delete real

fun step :: "session \<Rightarrow> action \<Rightarrow> session" where
  "step s (Submit now event_data) =
     (if current_tab s = Create_Event then snd (submit_form now event_data s) else s)"
| "step s (Start_edit event_id) =
     (if current_tab s = View_Events \<and> event_id \<in> set (map ident (events s))
      then start_edit_event event_id s else s)"
| "step s (Delete event_id) =
     (if current_tab s = View_Events \<and> event_id \<in> set (map ident (events s))
      then snd (delete_event event_id s) else s)"

text \<open>The session after a sequence of actions, from the first to the last.\<close>

definition run :: "action list \<Rightarrow> session \<Rightarrow> session" where
  "run acts s = foldl step s acts"

section \<open>Strings\<close>

text \<open>
  A Python string is a sequence of code points; a HOL \<open>string\<close> is a list of 8-bit
  characters. The model reads a character as the code point of the same number, so it
  covers the strings over the code points below 256.

  \<open>str.lower()\<close> on these code points: the capital letters are A to Z (65 to 90) and
  the capital letters of Latin-1 (192 to 222, the multiplication sign 215 apart), and the
  small letter is 32 further. \<open>a in b\<close> on strings is \<open>sublist a b\<close>: \<open>a\<close> occurs in \<open>b\<close>
  as a contiguous run.
\<close>

definition lower_char :: "char \<Rightarrow> char" where
  "lower_char c =
     (let n = (of_char c :: nat)
      in if (65 \<le> n \<and> n \<le> 90) \<or> (192 \<le> n \<and> n \<le> 222 \<and> n \<noteq> 215)
         then char_of (n + 32) else c)"

definition lower :: "string \<Rightarrow> string" where
  "lower s = map lower_char s"

section \<open>The filter of the event view\<close>

text \<open>
  The filtering loop of \<open>view_events_tab\<close> (lines 127 to 140). The loop appends the
  matching events, in the order of the list, to \<open>filtered_events\<close>, which starts empty;
  \<open>sorted_events\<close> is what the view then shows.
\<close>

definition matches_search :: "string \<Rightarrow> event \<Rightarrow> bool" where
  "matches_search search_query event =
     (sublist (lower search_query) (lower (title event)) \<or>
      sublist (lower search_query) (lower (description event)) \<or>
      sublist (lower search_query) (lower (location event)))"

definition matches_category :: "string \<Rightarrow> event \<Rightarrow> bool" where
  "matches_category category_filter event =
     (category_filter = ''All Categories'' \<or> category event = category_filter)"

fun filter_loop :: "string \<Rightarrow> string \<Rightarrow> event list \<Rightarrow> event list \<Rightarrow> event list" where
  "filter_loop search_query category_filter [] filtered = filtered"
| "filter_loop search_query category_filter (event # rest) filtered =
     filter_loop search_query category_filter rest
       (if matches_search search_query event \<and> matches_category category_filter event
        then filtered @ [event] else filtered)"

definition filtered_events :: "event list \<Rightarrow> string \<Rightarrow> string \<Rightarrow> event list" where
  "filtered_events all_events search_query category_filter =
     (if all_events \<noteq> [] then filter_loop search_query category_filter all_events [] else [])"

section \<open>Parsing date and time\<close>

text \<open>
  \<open>sort_events\<close> calls \<open>datetime.strptime(s, "%Y-%m-%d %H:%M")\<close> of the Python
  library (CPython 3.12, \<open>_strptime.py\<close>). The library turns the format into the regular
  expression
  \<^verbatim>\<open>(?P<Y>\d\d\d\d)-(?P<m>1[0-2]|0[1-9]|[1-9])-(?P<d>3[0-1]|[1-2]\d|0[1-9]|[1-9]| [1-9])\s+(?P<H>2[0-3]|[0-1]\d|\d):(?P<M>[0-5]\d|\d)\<close>
  matches it at the start of the string, raises \<open>ValueError\<close> when there is no match or
  when the match ends before the string does, and then builds the \<open>datetime\<close>, which
  raises \<open>ValueError\<close> for the year 0 and for a day the month does not have.

  Among the code points below 256, \<open>\d\<close> matches the digits 0 to 9 only and \<open>\s\<close>
  matches 9 to 13, 28 to 32, 133 and 160.
\<close>

definition is_digit :: "char \<Rightarrow> bool" where
  "is_digit c = (48 \<le> (of_char c :: nat) \<and> (of_char c :: nat) \<le> 57)"

definition digit_val :: "char \<Rightarrow> nat" where
  "digit_val c = of_char c - 48"

definition is_space :: "char \<Rightarrow> bool" where
  "is_space c = ((of_char c :: nat) \<in> {9, 10, 11, 12, 13, 28, 29, 30, 31, 32, 133, 160})"

text \<open>
  A group of the expression is modelled by the list of its matches at the start of a
  string, each with the number read and the rest of the string, in the order in which
  the backtracking matcher tries them: the alternatives from left to right. The
  predicates of \<open>two_digits\<close> and \<open>one_digit\<close> are the character classes, as ranges of
  the digit's value. The alternative \<^verbatim>\<open> [1-9]\<close> of the day is a space and a digit, which
  \<open>int\<close> reads as that digit.
\<close>

definition two_digits :: "(nat \<Rightarrow> bool) \<Rightarrow> (nat \<Rightarrow> bool) \<Rightarrow> string \<Rightarrow> (nat \<times> string) list" where
  "two_digits p q s =
     (case s of
        a # b # rest \<Rightarrow>
          if is_digit a \<and> p (digit_val a) \<and> is_digit b \<and> q (digit_val b)
          then [(10 * digit_val a + digit_val b, rest)] else []
      | _ \<Rightarrow> [])"

definition one_digit :: "(nat \<Rightarrow> bool) \<Rightarrow> string \<Rightarrow> (nat \<times> string) list" where
  "one_digit p s =
     (case s of
        a # rest \<Rightarrow> if is_digit a \<and> p (digit_val a) then [(digit_val a, rest)] else []
      | _ \<Rightarrow> [])"

definition space_digit :: "string \<Rightarrow> (nat \<times> string) list" where
  "space_digit s =
     (case s of
        a # b # rest \<Rightarrow>
          if a = CHR '' '' \<and> is_digit b \<and> 1 \<le> digit_val b then [(digit_val b, rest)] else []
      | _ \<Rightarrow> [])"

definition re_Y :: "string \<Rightarrow> (nat \<times> string) list" where
  "re_Y s =
     (case s of
        a # b # c # d # rest \<Rightarrow>
          if is_digit a \<and> is_digit b \<and> is_digit c \<and> is_digit d
          then [(1000 * digit_val a + 100 * digit_val b + 10 * digit_val c + digit_val d, rest)]
          else []
      | _ \<Rightarrow> [])"

definition re_m :: "string \<Rightarrow> (nat \<times> string) list" where
  "re_m s =
     two_digits (\<lambda>a. a = 1) (\<lambda>b. b \<le> 2) s @ two_digits (\<lambda>a. a = 0) (\<lambda>b. 1 \<le> b) s @
     one_digit (\<lambda>a. 1 \<le> a) s"

definition re_d :: "string \<Rightarrow> (nat \<times> string) list" where
  "re_d s =
     two_digits (\<lambda>a. a = 3) (\<lambda>b. b \<le> 1) s @ two_digits (\<lambda>a. 1 \<le> a \<and> a \<le> 2) (\<lambda>b. True) s @
     two_digits (\<lambda>a. a = 0) (\<lambda>b. 1 \<le> b) s @ one_digit (\<lambda>a. 1 \<le> a) s @ space_digit s"

definition re_H :: "string \<Rightarrow> (nat \<times> string) list" where
  "re_H s =
     two_digits (\<lambda>a. a = 2) (\<lambda>b. b \<le> 3) s @ two_digits (\<lambda>a. a \<le> 1) (\<lambda>b. True) s @
     one_digit (\<lambda>a. True) s"

definition re_M :: "string \<Rightarrow> (nat \<times> string) list" where
  "re_M s = two_digits (\<lambda>a. a \<le> 5) (\<lambda>b. True) s @ one_digit (\<lambda>a. True) s"

definition literal :: "char \<Rightarrow> string \<Rightarrow> string list" where
  "literal c s = (case s of a # rest \<Rightarrow> if a = c then [rest] else [] | [] \<Rightarrow> [])"

text \<open>
  \<open>\s+\<close> is greedy: the longest run of white space first, then the shorter ones.
\<close>

fun re_spaces :: "string \<Rightarrow> string list" where
  "re_spaces [] = []"
| "re_spaces (a # rest) = (if is_space a then re_spaces rest @ [rest] else [])"

text \<open>
  A naive \<open>datetime\<close> with seconds and microseconds 0 is the tuple (year, month, day,
  hour, minute); Python compares two of them as these tuples, lexicographically.

  \<open>format_regex\<close> lists the matches of the whole expression in the matcher's order, so
  \<open>re.match\<close> finds the first of the list.
\<close>

type_synonym datetime = "nat \<times> nat \<times> nat \<times> nat \<times> nat"

definition format_regex :: "string \<Rightarrow> (datetime \<times> string) list" where
  "format_regex s = do {
     (year, s1) \<leftarrow> re_Y s;
     s2 \<leftarrow> literal CHR ''-'' s1;
     (month, s3) \<leftarrow> re_m s2;
     s4 \<leftarrow> literal CHR ''-'' s3;
     (day, s5) \<leftarrow> re_d s4;
     s6 \<leftarrow> re_spaces s5;
     (hour, s7) \<leftarrow> re_H s6;
     s8 \<leftarrow> literal CHR '':'' s7;
     (minute, s9) \<leftarrow> re_M s8;
     [((year, month, day, hour, minute), s9)]
   }"

definition is_leap :: "nat \<Rightarrow> bool" where
  "is_leap year = (year mod 4 = 0 \<and> (year mod 100 \<noteq> 0 \<or> year mod 400 = 0))"

definition days_in_month :: "nat \<Rightarrow> nat \<Rightarrow> nat" where
  "days_in_month year month =
     (if month = 2 then (if is_leap year then 29 else 28)
      else if month \<in> {4, 6, 9, 11} then 30 else 31)"

text \<open>
  \<open>ValueError\<close> is the only exception the modelled code can raise. \<open>strptime\<close> raises
  it in three places: the string does not match the format; the match leaves data
  unconverted; the numbers are no date (\<open>datetime\<close> has no year 0, and the regular
  expression lets a day up to 31 pass for every month).
\<close>

datatype error = ValueError

definition strptime :: "string \<Rightarrow> error + datetime" where
  "strptime data_string =
     (case format_regex data_string of
        [] \<Rightarrow> Inl ValueError
      | ((year, month, day, hour, minute), rest) # _ \<Rightarrow>
          if rest \<noteq> [] then Inl ValueError
          else if year < 1 \<or> days_in_month year month < day then Inl ValueError
          else Inr (year, month, day, hour, minute))"

section \<open>Sorting\<close>

text \<open>
  \<open>sort_events\<close>: \<open>sorted(event_list, key=...)\<close>. \<open>sorted\<close> first calls the key function
  on every element, in order, so an exception of the key function ends the call before
  anything is compared; it then sorts the elements by their keys alone, stably. A stable
  sort has one possible result, which the insertion sort \<open>sort_key\<close> of the HOL library
  computes on the decorated list.
\<close>

definition key_of :: "event \<Rightarrow> error + datetime" where
  "key_of x = strptime (date x @ '' '' @ time x)"

fun keys_of :: "event list \<Rightarrow> error + datetime list" where
  "keys_of [] = Inr []"
| "keys_of (x # rest) =
     (case key_of x of
        Inl e \<Rightarrow> Inl e
      | Inr k \<Rightarrow> (case keys_of rest of Inl e \<Rightarrow> Inl e | Inr ks \<Rightarrow> Inr (k # ks)))"

definition sort_events :: "event list \<Rightarrow> error + event list" where
  "sort_events event_list =
     (case keys_of event_list of
        Inl e \<Rightarrow> Inl e
      | Inr ks \<Rightarrow> Inr (map snd (sort_key fst (zip ks event_list))))"

definition sorted_events :: "event list \<Rightarrow> string \<Rightarrow> string \<Rightarrow> error + event list" where
  "sorted_events all_events search_query category_filter =
     sort_events (filtered_events all_events search_query category_filter)"

section \<open>The formats of the specification\<close>

text \<open>
  These three definitions are not code of the program. They state what the
  specification calls well-formed: a date \<open>YYYY-MM-DD\<close> that is a day of the calendar
  (years 1 to 9999), a time \<open>HH:MM\<close> of the 24-hour clock, both with exactly these
  digits, and the sort key they denote. \<open>spec_key\<close> is \<open>None\<close> when the date or the
  time of the event is not well-formed.
\<close>

fun spec_date :: "string \<Rightarrow> (nat \<times> nat \<times> nat) option" where
  "spec_date [y1, y2, y3, y4, p, m1, m2, q, d1, d2] =
     (let year = 1000 * digit_val y1 + 100 * digit_val y2 + 10 * digit_val y3 + digit_val y4;
          month = 10 * digit_val m1 + digit_val m2;
          day = 10 * digit_val d1 + digit_val d2
      in if is_digit y1 \<and> is_digit y2 \<and> is_digit y3 \<and> is_digit y4 \<and> p = CHR ''-'' \<and>
            is_digit m1 \<and> is_digit m2 \<and> q = CHR ''-'' \<and> is_digit d1 \<and> is_digit d2 \<and>
            1 \<le> year \<and> 1 \<le> month \<and> month \<le> 12 \<and> 1 \<le> day \<and> day \<le> days_in_month year month
         then Some (year, month, day) else None)"
| "spec_date _ = None"

fun spec_time :: "string \<Rightarrow> (nat \<times> nat) option" where
  "spec_time [h1, h2, c, n1, n2] =
     (let hour = 10 * digit_val h1 + digit_val h2;
          minute = 10 * digit_val n1 + digit_val n2
      in if is_digit h1 \<and> is_digit h2 \<and> c = CHR '':'' \<and> is_digit n1 \<and> is_digit n2 \<and>
            hour \<le> 23 \<and> minute \<le> 59
         then Some (hour, minute) else None)"
| "spec_time _ = None"

definition spec_key :: "event \<Rightarrow> datetime option" where
  "spec_key x =
     (case spec_date (date x) of
        None \<Rightarrow> None
      | Some (year, month, day) \<Rightarrow>
          (case spec_time (time x) of
             None \<Rightarrow> None
           | Some (hour, minute) \<Rightarrow> Some (year, month, day, hour, minute)))"

text \<open>
  The next definitions are not code of the program either. They say, without a parser,
  which strings \<open>strptime\<close> reads with the format \<open>%Y-%m-%d %H:%M\<close> and as what: a year
  of four digits, then month, day, hour and minute of one or two digits each (the day
  also as a space and one digit), separated by \<open>-\<close>, \<open>-\<close>, white space and \<open>:\<close>, whose
  numbers are a day of the calendar and a time of the 24-hour clock.
\<close>

definition number :: "string \<Rightarrow> nat" where
  "number s = foldl (\<lambda>n c. 10 * n + digit_val c) 0 s"

definition one_or_two :: "string \<Rightarrow> bool" where
  "one_or_two s = (list_all is_digit s \<and> (length s = 1 \<or> length s = 2))"

definition calendar :: "datetime \<Rightarrow> bool" where
  "calendar k =
     (case k of (year, month, day, hour, minute) \<Rightarrow>
        1 \<le> year \<and> 1 \<le> month \<and> month \<le> 12 \<and> 1 \<le> day \<and> day \<le> days_in_month year month \<and>
        hour \<le> 23 \<and> minute \<le> 59)"

definition lenient_format :: "string \<Rightarrow> datetime \<Rightarrow> bool" where
  "lenient_format s k =
     (\<exists>ys ms ds ws hs ns.
        s = ys @ ''-'' @ ms @ ''-'' @ ds @ ws @ hs @ '':'' @ ns \<and>
        length ys = 4 \<and> list_all is_digit ys \<and> one_or_two ms \<and>
        (one_or_two ds \<or> (\<exists>c. ds = [CHR '' '', c] \<and> is_digit c)) \<and>
        ws \<noteq> [] \<and> list_all is_space ws \<and> one_or_two hs \<and> one_or_two ns \<and>
        k = (number ys, number ms, number (filter is_digit ds), number hs, number ns) \<and>
        calendar k)"

section \<open>Examples\<close>

text \<open>Two form contents used in the examples.\<close>

definition team_sync :: event_data where
  "team_sync =
     \<lparr>title = ''Team Sync'', date = ''2024-05-01'', time = ''09:00'', location = '''',
      category = ''Meeting'', description = ''''\<rparr>"

definition art_workshop :: event_data where
  "art_workshop =
     \<lparr>title = ''Art Workshop'', date = ''2024-04-20'', time = ''14:00'',
      location = ''Studio 5'', category = ''Workshop'', description = ''''\<rparr>"

definition store_ab :: session where
  "store_ab =
     \<lparr>events = [with_id team_sync 1, with_id art_workshop 2], editing_id = Some 2,
      current_tab = Create_Event\<rparr>"

definition dangling :: session where
  "dangling = \<lparr>events = [with_id team_sync 1], editing_id = Some 7, current_tab = Create_Event\<rparr>"

definition workshop2 :: event_data where
  "workshop2 = art_workshop\<lparr>title := ''Art Workshop II''\<rparr>"

definition two_events :: "event list" where
  "two_events = [with_id team_sync 1, with_id art_workshop 2]"

definition malformed_events :: "event list" where
  "malformed_events = [with_id art_workshop 2, with_id (team_sync\<lparr>date := ''soon''\<rparr>) 1]"

definition tied_events :: "event list" where
  "tied_events = [with_id team_sync 1, with_id art_workshop 2, with_id team_sync 3]"

definition one_event :: "action list" where
  "one_event = [Submit 5 team_sync]"

definition unpadded_event :: event where
  "unpadded_event = with_id (team_sync\<lparr>date := ''2024-5-1'', time := ''9:05''\<rparr>) 1"

section \<open>Facts about the index search\<close>

lemma next_index_absent:
  "eid \<notin> ident ` set evs \<Longrightarrow> next_index eid evs i = - 1"
  by (induction evs arbitrary: i) auto

lemma next_index_present:
  "eid \<in> ident ` set evs \<Longrightarrow>
   \<exists>k<length evs. next_index eid evs i = int (i + k) \<and> ident (evs ! k) = eid \<and>
     (\<forall>j<k. ident (evs ! j) \<noteq> eid)"
proof (induction evs arbitrary: i)
  case Nil
  then show ?case by simp
next
  case (Cons e rest)
  show ?case
  proof (cases "ident e = eid")
    case True
    then have "next_index eid (e # rest) i = int (i + 0) \<and> ident ((e # rest) ! 0) = eid \<and>
        (\<forall>j<0. ident ((e # rest) ! j) \<noteq> eid)"
      by simp
    then show ?thesis by blast
  next
    case False
    with Cons.prems have "eid \<in> ident ` set rest" by auto
    from Cons.IH [OF this, of "Suc i"] obtain k where k: "k < length rest"
      "next_index eid rest (Suc i) = int (Suc i + k)" "ident (rest ! k) = eid"
      "\<forall>j<k. ident (rest ! j) \<noteq> eid"
      by blast
    have "\<forall>j<Suc k. ident ((e # rest) ! j) \<noteq> eid"
    proof (intro allI impI)
      fix j assume "j < Suc k"
      then show "ident ((e # rest) ! j) \<noteq> eid"
        using False k(4) by (cases j) auto
    qed
    with False k have "Suc k < length (e # rest) \<and>
        next_index eid (e # rest) i = int (i + Suc k) \<and> ident ((e # rest) ! Suc k) = eid \<and>
        (\<forall>j<Suc k. ident ((e # rest) ! j) \<noteq> eid)"
      by simp
    then show ?thesis by blast
  qed
qed

lemma next_index_nonneg_iff:
  "next_index eid evs i \<noteq> - 1 \<longleftrightarrow> eid \<in> ident ` set evs"
proof
  assume "next_index eid evs i \<noteq> - 1"
  then show "eid \<in> ident ` set evs"
    using next_index_absent by blast
next
  assume "eid \<in> ident ` set evs"
  from next_index_present [OF this, of i] show "next_index eid evs i \<noteq> - 1"
    by auto
qed

lemma ident_with_id: "ident (with_id d i) = i"
  by (simp add: with_id_def)

section \<open>The three branches of add_event\<close>


lemma add_event_absent:
  "editing_id s = Some i \<Longrightarrow> i \<notin> ident ` set (events s) \<Longrightarrow>
   add_event now d s =
     (Toast_updated, s\<lparr>events := events s, editing_id := None, current_tab := View_Events\<rparr>)"
  by (simp add: add_event_def next_index_absent)

lemma add_event_present:
  assumes "editing_id s = Some i" and "i \<in> ident ` set (events s)"
  shows "\<exists>k<length (events s). ident (events s ! k) = i \<and>
           (\<forall>j<k. ident (events s ! j) \<noteq> i) \<and>
           add_event now d s =
             (Toast_updated,
              s\<lparr>events := (events s)[k := with_id d i], editing_id := None,
                current_tab := View_Events\<rparr>)"
proof -
  from next_index_present [OF assms(2), of 0] obtain k where k: "k < length (events s)"
    "next_index i (events s) 0 = int k" "ident (events s ! k) = i"
    "\<forall>j<k. ident (events s ! j) \<noteq> i"
    by auto
  have "add_event now d s =
      (Toast_updated,
       s\<lparr>events := (events s)[k := with_id d i], editing_id := None,
         current_tab := View_Events\<rparr>)"
    using assms(1) k(2) by (simp add: add_event_def)
  with k show ?thesis by blast
qed

text \<open>The stored event carries every field of the form, and the id it is given.\<close>

lemma with_id_fields:
  "title (with_id d i) = title d \<and> date (with_id d i) = date d \<and> time (with_id d i) = time d \<and>
   location (with_id d i) = location d \<and> category (with_id d i) = category d \<and>
   description (with_id d i) = description d \<and> ident (with_id d i) = i"
  by (simp add: with_id_def)

lemma add_event_length:
  "length (events (snd (add_event now d s))) =
   (if editing_id s = None then Suc (length (events s)) else length (events s))"
  by (simp add: add_event_def Let_def split: option.splits)

lemma add_event_after:
  "editing_id (snd (add_event now d s)) = None \<and> current_tab (snd (add_event now d s)) = View_Events"
  by (simp add: add_event_def Let_def split: option.splits)

section \<open>Validation of the title\<close>

text \<open>
  Claim C7. A submission whose title is the empty string is rejected with
  \<open>st.error("Event Title is required!")\<close>, the validation error of the program:
  \<open>add_event\<close> is not called and the session, the event list included, is what it was.
  This holds in create mode and in edit mode alike.
\<close>
theorem create_empty_title_rejected:
  "title d = [] \<Longrightarrow> submit_form now d s = (Error_title_required, s)"
  by (simp add: submit_form_def)

text \<open>The hypothesis of C7 at the form of Team Sync with its title erased.\<close>
theorem create_empty_title_rejected_witness:
  "title (team_sync\<lparr>title := []\<rparr>) = [] \<and>
   submit_form 5 (team_sync\<lparr>title := []\<rparr>) init_session = (Error_title_required, init_session)"
  using create_empty_title_rejected [of "team_sync\<lparr>title := []\<rparr>" 5 init_session]
  by simp

section \<open>Sessions the program can reach\<close>

text \<open>
  \<open>add_event\<close> ends on the View tab with \<open>editing_id\<close> cleared, and only the Edit button
  leads back to the Create tab, with \<open>editing_id\<close> set. So the create branch runs only
  while the list is still empty, and the list never holds more than one event.
\<close>

lemma step_invariant:
  assumes "length (events s) \<le> 1"
    and "current_tab s = Create_Event \<and> editing_id s = None \<longrightarrow> events s = []"
  shows "length (events (step s a)) \<le> 1 \<and>
         (current_tab (step s a) = Create_Event \<and> editing_id (step s a) = None \<longrightarrow>
            events (step s a) = [])"
proof (cases a)
  case (Submit now d)
  show ?thesis
  proof (cases "current_tab s = Create_Event \<and> title d \<noteq> []")
    case True
    then have st: "step s a = snd (add_event now d s)"
      using Submit by (simp add: submit_form_def)
    have "length (events (snd (add_event now d s))) \<le> 1"
      using assms True by (auto simp: add_event_length)
    then show ?thesis
      unfolding st using add_event_after [of now d s] by simp
  next
    case False
    then have "step s a = s"
      using Submit by (auto simp: submit_form_def)
    with assms show ?thesis by simp
  qed
next
  case (Start_edit i)
  with assms show ?thesis by (simp add: start_edit_event_def)
next
  case (Delete i)
  have "length (filter (\<lambda>e. ident e \<noteq> i) (events s)) \<le> 1"
    using length_filter_le [of "\<lambda>e. ident e \<noteq> i" "events s"] assms(1) by linarith
  with assms Delete show ?thesis by (auto simp: delete_event_def)
qed

lemma run_invariant:
  assumes "length (events s) \<le> 1"
    and "current_tab s = Create_Event \<and> editing_id s = None \<longrightarrow> events s = []"
  shows "length (events (run acts s)) \<le> 1 \<and>
         (current_tab (run acts s) = Create_Event \<and> editing_id (run acts s) = None \<longrightarrow>
            events (run acts s) = [])"
  using assms
proof (induction acts arbitrary: s)
  case Nil
  then show ?case by (simp add: run_def)
next
  case (Cons a acts)
  from step_invariant [OF Cons.prems] have
    "length (events (step s a)) \<le> 1"
    "current_tab (step s a) = Create_Event \<and> editing_id (step s a) = None \<longrightarrow>
       events (step s a) = []"
    by simp_all
  from Cons.IH [OF this] show ?case by (simp add: run_def)
qed

lemma run_init_small:
  "length (events (run acts init_session)) \<le> 1 \<and>
   (current_tab (run acts init_session) = Create_Event \<and>
    editing_id (run acts init_session) = None \<longrightarrow> events (run acts init_session) = [])"
  by (rule run_invariant) (simp_all add: init_session_def)

lemma short_distinct: "length xs \<le> 1 \<Longrightarrow> distinct xs"
  by (cases xs) auto

lemma run_init_distinct: "distinct (map ident (events (run acts init_session)))"
  using run_init_small [of acts] by (simp add: short_distinct)



section \<open>Submitting while editing\<close>

text \<open>
  Claim C3, as amended. A submission while \<open>editing_id\<close> is an id that no event of the
  list has leaves the list as it was, and it reports no missing id: the message is the
  toast of a successful update (or the title error when the title is empty).
\<close>
theorem update_absent_reports_success:
  assumes "editing_id s = Some i" and "i \<notin> ident ` set (events s)"
  shows "events (snd (submit_form now d s)) = events s \<and>
         fst (submit_form now d s) = (if title d = [] then Error_title_required else Toast_updated)"
  using assms by (simp add: submit_form_def add_event_absent)

text \<open>The hypotheses of C3 at a list holding id 1 only, while editing id 7.\<close>
theorem update_absent_reports_success_witness:
  "editing_id dangling = Some 7 \<and> 7 \<notin> ident ` set (events dangling) \<and>
   events (snd (submit_form 5 art_workshop dangling)) = events dangling \<and>
   fst (submit_form 5 art_workshop dangling) = Toast_updated"
proof -
  have h1: "editing_id dangling = Some 7"
    by (simp add: dangling_def)
  have h2: "7 \<notin> ident ` set (events dangling)"
    by (simp add: dangling_def with_id_def)
  have "title art_workshop \<noteq> []"
    by (simp add: art_workshop_def)
  with update_absent_reports_success [OF h1 h2, of 5 art_workshop] h1 h2
  show ?thesis by simp
qed

text \<open>
  Claim C3 as stated fails: updating id 7 in a list that holds id 1 only is answered with
  \<open>Toast_updated\<close>, the message of success, and not with an error.
\<close>
theorem update_absent_counterexample:
  "fst (submit_form 5 art_workshop
          \<lparr>events = [with_id team_sync 1], editing_id = Some 7, current_tab = Create_Event\<rparr>)
   = Toast_updated"
  by (simp add: submit_form_def add_event_def art_workshop_def with_id_def)

text \<open>
  Claim C10. When \<open>editing_id\<close> is set and no event of the list has that id,
  \<open>add_event\<close> leaves the event list as it was and sets \<open>editing_id\<close> to \<open>None\<close>,
  whatever the form holds.
\<close>
theorem submit_dangling_edit_id:
  assumes "editing_id s = Some i" and "i \<notin> ident ` set (events s)"
  shows "events (snd (add_event now d s)) = events s \<and>
         editing_id (snd (add_event now d s)) = None"
  using assms by (simp add: add_event_absent)

text \<open>The hypotheses of C10 at a list holding id 1 only, while editing id 7.\<close>
theorem submit_dangling_edit_id_witness:
  "editing_id dangling = Some 7 \<and> 7 \<notin> ident ` set (events dangling) \<and>
   events (snd (add_event 5 art_workshop dangling)) = [with_id team_sync 1] \<and>
   editing_id (snd (add_event 5 art_workshop dangling)) = None"
proof -
  have h1: "editing_id dangling = Some 7"
    by (simp add: dangling_def)
  have h2: "7 \<notin> ident ` set (events dangling)"
    by (simp add: dangling_def with_id_def)
  from submit_dangling_edit_id [OF h1 h2, of 5 art_workshop] h1 h2
  show ?thesis by (simp add: dangling_def)
qed

text \<open>
  Claim C6. A submission with a non-empty title while \<open>editing_id\<close> is the id of a stored
  event replaces the first event with that id, at its index \<open>k\<close>: afterwards the event
  at \<open>k\<close> has the title, date, time, location, category and description of the form
  and the id it had; the list keeps its length and every other index keeps its event.
\<close>
theorem update_in_place:
  assumes "editing_id s = Some i" and "i \<in> ident ` set (events s)" and "title d \<noteq> []"
    and "submit_form now d s = (n, s')"
  shows "\<exists>k<length (events s). ident (events s ! k) = i \<and>
           (\<forall>j<k. ident (events s ! j) \<noteq> i) \<and>
           length (events s') = length (events s) \<and>
           title (events s' ! k) = title d \<and> date (events s' ! k) = date d \<and>
           time (events s' ! k) = time d \<and> location (events s' ! k) = location d \<and>
           category (events s' ! k) = category d \<and>
           description (events s' ! k) = description d \<and> ident (events s' ! k) = i \<and>
           (\<forall>j<length (events s). j \<noteq> k \<longrightarrow> events s' ! j = events s ! j)"
proof -
  from add_event_present [OF assms(1,2), of now d] obtain k where k: "k < length (events s)"
    "ident (events s ! k) = i" "\<forall>j<k. ident (events s ! j) \<noteq> i"
    "add_event now d s =
       (Toast_updated,
        s\<lparr>events := (events s)[k := with_id d i], editing_id := None,
          current_tab := View_Events\<rparr>)"
    by blast
  from assms(3,4) k(4) have "events s' = (events s)[k := with_id d i]"
    by (auto simp: submit_form_def)
  with k(1) have "length (events s') = length (events s) \<and> events s' ! k = with_id d i \<and>
      (\<forall>j<length (events s). j \<noteq> k \<longrightarrow> events s' ! j = events s ! j)"
    by simp
  with k(1,2,3) with_id_fields [of d i] show ?thesis by auto
qed

text \<open>The hypotheses of C6 at the list of Team Sync and Art Workshop, editing the second.\<close>
theorem update_in_place_witness:
  "editing_id store_ab = Some 2 \<and> 2 \<in> ident ` set (events store_ab) \<and> title workshop2 \<noteq> [] \<and>
   (\<exists>k<length (events store_ab). ident (events store_ab ! k) = 2 \<and>
      (\<forall>j<k. ident (events store_ab ! j) \<noteq> 2) \<and>
      length (events (snd (submit_form 9 workshop2 store_ab))) = length (events store_ab) \<and>
      title (events (snd (submit_form 9 workshop2 store_ab)) ! k) = title workshop2 \<and>
      date (events (snd (submit_form 9 workshop2 store_ab)) ! k) = date workshop2 \<and>
      time (events (snd (submit_form 9 workshop2 store_ab)) ! k) = time workshop2 \<and>
      location (events (snd (submit_form 9 workshop2 store_ab)) ! k) = location workshop2 \<and>
      category (events (snd (submit_form 9 workshop2 store_ab)) ! k) = category workshop2 \<and>
      description (events (snd (submit_form 9 workshop2 store_ab)) ! k) = description workshop2 \<and>
      ident (events (snd (submit_form 9 workshop2 store_ab)) ! k) = 2 \<and>
      (\<forall>j<length (events store_ab). j \<noteq> k \<longrightarrow>
         events (snd (submit_form 9 workshop2 store_ab)) ! j = events store_ab ! j))"
proof -
  have h1: "editing_id store_ab = Some 2"
    by (simp add: store_ab_def)
  have h2: "2 \<in> ident ` set (events store_ab)"
    by (simp add: store_ab_def with_id_def)
  have h3: "title workshop2 \<noteq> []"
    by (simp add: workshop2_def)
  have h4: "submit_form 9 workshop2 store_ab =
      (fst (submit_form 9 workshop2 store_ab), snd (submit_form 9 workshop2 store_ab))"
    by simp
  note c = update_in_place [OF h1 h2 h3 h4]
  from h1 h2 h3 c show ?thesis by (intro conjI)
qed




section \<open>Deleting\<close>

lemma filter_out_one:
  "distinct (map f xs) \<Longrightarrow> i \<in> f ` set xs \<Longrightarrow>
   \<exists>e. f e = i \<and> mset xs = add_mset e (mset (filter (\<lambda>x. f x \<noteq> i) xs))"
proof (induction xs)
  case Nil
  then show ?case by simp
next
  case (Cons x xs)
  show ?case
  proof (cases "f x = i")
    case True
    with Cons.prems(1) have "i \<notin> f ` set xs" by auto
    then have "filter (\<lambda>x. f x \<noteq> i) xs = xs"
      by (auto simp: filter_id_conv)
    with True show ?thesis by auto
  next
    case False
    with Cons.prems have "distinct (map f xs)" "i \<in> f ` set xs" by auto
    from Cons.IH [OF this] obtain e where "f e = i"
      "mset xs = add_mset e (mset (filter (\<lambda>x. f x \<noteq> i) xs))" by blast
    with False show ?thesis by auto
  qed
qed

lemma run_one_event: "events (run one_event init_session) = [with_id team_sync 5]"
  by (simp add: one_event_def run_def submit_form_def add_event_def init_session_def team_sync_def)

text \<open>
  Claim C8, as amended. \<open>delete_event\<close> answers with the same toast whatever the list
  holds and returns no value. It keeps, in order, exactly the events with another id and
  leaves \<open>editing_id\<close> alone. When no event has the id the list is unchanged. When an
  event has it, exactly that one event leaves the list and no other: on every list with
  distinct ids, and so in every session the program can reach.
\<close>
theorem delete_event_effect:
  "fst (delete_event i s) = Toast_deleted \<and>
   events (snd (delete_event i s)) = filter (\<lambda>e. ident e \<noteq> i) (events s) \<and>
   editing_id (snd (delete_event i s)) = editing_id s \<and>
   (i \<notin> ident ` set (events s) \<longrightarrow> events (snd (delete_event i s)) = events s) \<and>
   (i \<in> ident ` set (events s) \<and> distinct (map ident (events s)) \<longrightarrow>
      (\<exists>e. ident e = i \<and>
         mset (events s) = add_mset e (mset (events (snd (delete_event i s)))))) \<and>
   (i \<in> ident ` set (events (run acts init_session)) \<longrightarrow>
      (\<exists>e. ident e = i \<and>
         mset (events (run acts init_session)) =
         add_mset e (mset (events (snd (delete_event i (run acts init_session)))))))"
proof (intro conjI impI)
  assume "i \<notin> ident ` set (events s)"
  then have "filter (\<lambda>e. ident e \<noteq> i) (events s) = events s"
    by (auto simp: filter_id_conv)
  then show "events (snd (delete_event i s)) = events s"
    by (simp add: delete_event_def)
next
  assume "i \<in> ident ` set (events s) \<and> distinct (map ident (events s))"
  then have "\<exists>e. ident e = i \<and>
      mset (events s) = add_mset e (mset (filter (\<lambda>x. ident x \<noteq> i) (events s)))"
    using filter_out_one [of ident "events s" i] by blast
  then show "\<exists>e. ident e = i \<and>
      mset (events s) = add_mset e (mset (events (snd (delete_event i s))))"
    by (simp add: delete_event_def)
next
  assume "i \<in> ident ` set (events (run acts init_session))"
  then have "\<exists>e. ident e = i \<and> mset (events (run acts init_session)) =
      add_mset e (mset (filter (\<lambda>x. ident x \<noteq> i) (events (run acts init_session))))"
    using filter_out_one [of ident "events (run acts init_session)" i] run_init_distinct [of acts]
    by blast
  then show "\<exists>e. ident e = i \<and> mset (events (run acts init_session)) =
      add_mset e (mset (events (snd (delete_event i (run acts init_session)))))"
    by (simp add: delete_event_def)
qed (simp_all add: delete_event_def)

text \<open>
  The hypotheses of C8 at the list of ids 1 and 2 (deleting id 7, then id 2) and at the
  session after one submission (deleting its event).
\<close>
theorem delete_event_effect_witness:
  "7 \<notin> ident ` set (events store_ab) \<and>
   events (snd (delete_event 7 store_ab)) = events store_ab \<and>
   2 \<in> ident ` set (events store_ab) \<and> distinct (map ident (events store_ab)) \<and>
   events (snd (delete_event 2 store_ab)) = [with_id team_sync 1] \<and>
   (\<exists>e. ident e = 2 \<and>
      mset (events store_ab) = add_mset e (mset (events (snd (delete_event 2 store_ab))))) \<and>
   5 \<in> ident ` set (events (run one_event init_session)) \<and>
   (\<exists>e. ident e = 5 \<and>
      mset (events (run one_event init_session)) =
      add_mset e (mset (events (snd (delete_event 5 (run one_event init_session))))))"
proof -
  have h1: "7 \<notin> ident ` set (events store_ab)"
    by (simp add: store_ab_def with_id_def)
  have h2: "2 \<in> ident ` set (events store_ab) \<and> distinct (map ident (events store_ab))"
    by (simp add: store_ab_def with_id_def)
  have h3: "filter (\<lambda>e. ident e \<noteq> 2) (events store_ab) = [with_id team_sync 1]"
    by (simp add: store_ab_def with_id_def)
  have h4: "5 \<in> ident ` set (events (run one_event init_session))"
    by (simp add: run_one_event with_id_def)
  note d1 = delete_event_effect [of 7 store_ab, THEN conjunct2, THEN conjunct2, THEN conjunct2,
      THEN conjunct1, THEN mp, OF h1]
  note d2 = delete_event_effect [of 2 store_ab, THEN conjunct2, THEN conjunct2, THEN conjunct2,
      THEN conjunct2, THEN conjunct1, THEN mp, OF h2]
  have d3: "events (snd (delete_event 2 store_ab)) = [with_id team_sync 1]"
    using delete_event_effect [of 2 store_ab, THEN conjunct2, THEN conjunct1] h3 by simp
  note d4 = delete_event_effect [of 5 init_session one_event, THEN conjunct2, THEN conjunct2,
      THEN conjunct2, THEN conjunct2, THEN conjunct2, THEN mp, OF h4]
  from h1 h2 h4 d1 d2 d3 d4 show ?thesis by (intro conjI) simp_all
qed

text \<open>
  Claim C8 as stated fails: what \<open>delete_event\<close> reports for id 7 is the same on a list
  without that id and on a list with it, so it is no boolean telling the two apart.
\<close>
theorem delete_result_counterexample:
  "fst (delete_event 7 \<lparr>events = [], editing_id = None, current_tab = View_Events\<rparr>) =
   fst (delete_event 7
     \<lparr>events = [with_id team_sync 7], editing_id = None, current_tab = View_Events\<rparr>)"
  by (simp add: delete_event_def)

section \<open>strptime on well-formed strings\<close>

lemma digit_facts:
  assumes "is_digit c"
  shows "c \<noteq> CHR ''-''" and "c \<noteq> CHR '':''" and "c \<noteq> CHR '' ''" and "\<not> is_space c"
    and "digit_val c \<le> 9"
  using assms by (auto simp: is_digit_def is_space_def digit_val_def)

lemma bind_re_m:
  assumes "is_digit a" "is_digit b" "1 \<le> 10 * digit_val a + digit_val b"
    "10 * digit_val a + digit_val b \<le> 12"
  shows "List.bind (re_m (a # b # CHR ''-'' # rest))
           (\<lambda>(m, s). List.bind (literal CHR ''-'' s) (f m)) =
         f (10 * digit_val a + digit_val b) rest"
proof -
  have "digit_val a = 0 \<and> 1 \<le> digit_val b \<or> digit_val a = 1 \<and> digit_val b \<le> 2"
    using assms digit_facts(5) [of b] by arith
  then show ?thesis
    using assms(1,2) digit_facts(1) [of b]
    by (auto simp: re_m_def two_digits_def one_digit_def literal_def)
qed

lemma bind_re_d:
  assumes "is_digit a" "is_digit b" "1 \<le> 10 * digit_val a + digit_val b"
    "10 * digit_val a + digit_val b \<le> 31" "is_digit c"
  shows "List.bind (re_d (a # b # CHR '' '' # c # rest))
           (\<lambda>(d, s). List.bind (re_spaces s) (f d)) =
         f (10 * digit_val a + digit_val b) (c # rest)"
proof -
  have "digit_val a = 0 \<and> 1 \<le> digit_val b \<or> digit_val a = 1 \<or> digit_val a = 2 \<or>
      digit_val a = 3 \<and> digit_val b \<le> 1"
    using assms digit_facts(5) [of b] by arith
  moreover have "is_space CHR '' ''"
    by (simp add: is_space_def)
  ultimately show ?thesis
    using assms(1,2,5) digit_facts(3,4) [of a] digit_facts(4) [of b] digit_facts(4) [of c]
    by (auto simp: re_d_def two_digits_def one_digit_def space_digit_def)
qed

lemma bind_re_H:
  assumes "is_digit a" "is_digit b" "10 * digit_val a + digit_val b \<le> 23"
  shows "List.bind (re_H (a # b # CHR '':'' # rest))
           (\<lambda>(h, s). List.bind (literal CHR '':'' s) (f h)) =
         f (10 * digit_val a + digit_val b) rest"
proof -
  have "digit_val a \<le> 1 \<or> digit_val a = 2 \<and> digit_val b \<le> 3"
    using assms digit_facts(5) [of b] by arith
  then show ?thesis
    using assms(1,2) digit_facts(2) [of b]
    by (auto simp: re_H_def two_digits_def one_digit_def literal_def)
qed

lemma re_M_two:
  assumes "is_digit a" "is_digit b" "10 * digit_val a + digit_val b \<le> 59"
  shows "re_M [a, b] = [(10 * digit_val a + digit_val b, []), (digit_val a, [b])]"
proof -
  have "digit_val a \<le> 5"
    using assms(3) by arith
  then show ?thesis
    using assms(1,2) by (simp add: re_M_def two_digits_def one_digit_def)
qed

lemma bind_re_Y:
  assumes "is_digit a" "is_digit b" "is_digit c" "is_digit d"
  shows "List.bind (re_Y (a # b # c # d # CHR ''-'' # rest))
           (\<lambda>(y, s). List.bind (literal CHR ''-'' s) (f y)) =
         f (1000 * digit_val a + 100 * digit_val b + 10 * digit_val c + digit_val d) rest"
  using assms by (simp add: re_Y_def literal_def)

lemma strptime_iso:
  assumes "spec_date ds = Some (year, month, day)" and "spec_time ts = Some (hour, minute)"
  shows "strptime (ds @ '' '' @ ts) = Inr (year, month, day, hour, minute)"
proof -
  from assms(1) obtain y1 y2 y3 y4 m1 m2 d1 d2 where
    ds: "ds = [y1, y2, y3, y4, CHR ''-'', m1, m2, CHR ''-'', d1, d2]"
    and dy: "is_digit y1" "is_digit y2" "is_digit y3" "is_digit y4"
    and dm: "is_digit m1" "is_digit m2" and dd: "is_digit d1" "is_digit d2"
    and year: "year = 1000 * digit_val y1 + 100 * digit_val y2 + 10 * digit_val y3 + digit_val y4"
    and month: "month = 10 * digit_val m1 + digit_val m2"
    and day: "day = 10 * digit_val d1 + digit_val d2"
    and range: "1 \<le> year" "1 \<le> month" "month \<le> 12" "1 \<le> day" "day \<le> days_in_month year month"
    by (auto elim!: spec_date.elims simp: Let_def split: if_splits)
  from assms(2) obtain h1 h2 n1 n2 where
    ts: "ts = [h1, h2, CHR '':'', n1, n2]"
    and dh: "is_digit h1" "is_digit h2" and dn: "is_digit n1" "is_digit n2"
    and hour: "hour = 10 * digit_val h1 + digit_val h2"
    and minute: "minute = 10 * digit_val n1 + digit_val n2"
    and hm: "hour \<le> 23" "minute \<le> 59"
    by (auto elim!: spec_time.elims simp: Let_def split: if_splits)
  have "days_in_month year month \<le> 31"
    by (simp add: days_in_month_def)
  with range(5) have day31: "day \<le> 31" by simp
  have "format_regex (ds @ '' '' @ ts) =
      [((year, month, day, hour, minute), []), ((year, month, day, hour, digit_val n1), [n2])]"
    unfolding format_regex_def ds ts
    using dy dm dd dh dn range(2,3,4) day31 hm
    unfolding year month day hour minute
    by (simp add: bind_re_Y bind_re_m bind_re_d bind_re_H re_M_two)
  then show ?thesis
    using range(1,5) by (simp add: strptime_def)
qed

section \<open>What strptime accepts\<close>

text \<open>
  Every match of a group reads one of the strings the definition of \<open>lenient_format\<close>
  allows for it, so whatever \<open>strptime\<close> returns is read in that format.
\<close>

lemma two_digits_sound:
  assumes "(v, r) \<in> set (two_digits p q s)"
  shows "\<exists>a b. s = a # b # r \<and> is_digit a \<and> is_digit b \<and> p (digit_val a) \<and> q (digit_val b) \<and>
           v = 10 * digit_val a + digit_val b"
  using assms by (auto simp: two_digits_def split: list.splits if_splits)

lemma one_digit_sound:
  assumes "(v, r) \<in> set (one_digit p s)"
  shows "\<exists>a. s = a # r \<and> is_digit a \<and> p (digit_val a) \<and> v = digit_val a"
  using assms by (auto simp: one_digit_def split: list.splits if_splits)

lemma space_digit_sound:
  assumes "(v, r) \<in> set (space_digit s)"
  shows "\<exists>b. s = CHR '' '' # b # r \<and> is_digit b \<and> 1 \<le> digit_val b \<and> v = digit_val b"
  using assms by (auto simp: space_digit_def split: list.splits if_splits)

lemma number_simps:
  "number [a] = digit_val a" "number [a, b] = 10 * digit_val a + digit_val b"
  "number [a, b, c, d] = 1000 * digit_val a + 100 * digit_val b + 10 * digit_val c + digit_val d"
  by (simp_all add: number_def)

lemma one_or_two_simps:
  "one_or_two [a] = is_digit a" "one_or_two [a, b] = (is_digit a \<and> is_digit b)"
  by (auto simp: one_or_two_def)

lemma re_Y_sound:
  assumes "(v, r) \<in> set (re_Y s)"
  shows "\<exists>ys. s = ys @ r \<and> length ys = 4 \<and> list_all is_digit ys \<and> v = number ys"
proof -
  from assms obtain a b c d where "s = a # b # c # d # r" "is_digit a" "is_digit b" "is_digit c"
    "is_digit d" "v = 1000 * digit_val a + 100 * digit_val b + 10 * digit_val c + digit_val d"
    by (auto simp: re_Y_def split: list.splits if_splits)
  then have "s = [a, b, c, d] @ r \<and> length [a, b, c, d] = 4 \<and> list_all is_digit [a, b, c, d] \<and>
      v = number [a, b, c, d]"
    by (simp add: number_simps)
  then show ?thesis by blast
qed

lemma digit_val_le: "is_digit a \<Longrightarrow> digit_val a \<le> 9"
  by (auto simp: is_digit_def digit_val_def)

lemma two_digits_range:
  assumes "(v, r) \<in> set (two_digits p q s)"
    and "\<And>a b. p a \<Longrightarrow> q b \<Longrightarrow> b \<le> 9 \<Longrightarrow> lo \<le> 10 * a + b \<and> 10 * a + b \<le> hi"
  shows "\<exists>ms. s = ms @ r \<and> one_or_two ms \<and> v = number ms \<and> lo \<le> v \<and> v \<le> hi"
proof -
  from two_digits_sound [OF assms(1)] obtain a b where ab: "s = a # b # r" "is_digit a"
    "is_digit b" "p (digit_val a)" "q (digit_val b)" "v = 10 * digit_val a + digit_val b"
    by blast
  from assms(2) [OF ab(4,5) digit_val_le [OF ab(3)]] ab
  have "s = [a, b] @ r \<and> one_or_two [a, b] \<and> v = number [a, b] \<and> lo \<le> v \<and> v \<le> hi"
    by (simp add: number_simps one_or_two_simps)
  then show ?thesis by blast
qed

lemma one_digit_range:
  assumes "(v, r) \<in> set (one_digit p s)"
    and "\<And>a. p a \<Longrightarrow> a \<le> 9 \<Longrightarrow> lo \<le> a \<and> a \<le> hi"
  shows "\<exists>ms. s = ms @ r \<and> one_or_two ms \<and> v = number ms \<and> lo \<le> v \<and> v \<le> hi"
proof -
  from one_digit_sound [OF assms(1)] obtain a where a: "s = a # r" "is_digit a"
    "p (digit_val a)" "v = digit_val a"
    by blast
  from assms(2) [OF a(3) digit_val_le [OF a(2)]] a
  have "s = [a] @ r \<and> one_or_two [a] \<and> v = number [a] \<and> lo \<le> v \<and> v \<le> hi"
    by (simp add: number_simps one_or_two_simps)
  then show ?thesis by blast
qed

lemma re_m_sound:
  assumes "(v, r) \<in> set (re_m s)"
  shows "\<exists>ms. s = ms @ r \<and> one_or_two ms \<and> v = number ms \<and> 1 \<le> v \<and> v \<le> 12"
proof -
  from assms have "(v, r) \<in> set (two_digits (\<lambda>a. a = 1) (\<lambda>b. b \<le> 2) s) \<or>
      (v, r) \<in> set (two_digits (\<lambda>a. a = 0) (\<lambda>b. 1 \<le> b) s) \<or>
      (v, r) \<in> set (one_digit (\<lambda>a. 1 \<le> a) s)"
    by (simp add: re_m_def)
  then show ?thesis
  proof (elim disjE)
    assume "(v, r) \<in> set (two_digits (\<lambda>a. a = 1) (\<lambda>b. b \<le> 2) s)"
    then show ?thesis by (rule two_digits_range) simp
  next
    assume "(v, r) \<in> set (two_digits (\<lambda>a. a = 0) (\<lambda>b. 1 \<le> b) s)"
    then show ?thesis by (rule two_digits_range) simp
  next
    assume "(v, r) \<in> set (one_digit (\<lambda>a. 1 \<le> a) s)"
    then show ?thesis by (rule one_digit_range) simp
  qed
qed

lemma re_d_sound:
  assumes "(v, r) \<in> set (re_d s)"
  shows "\<exists>ds. s = ds @ r \<and> (one_or_two ds \<or> (\<exists>c. ds = [CHR '' '', c] \<and> is_digit c)) \<and>
           v = number (filter is_digit ds) \<and> 1 \<le> v \<and> v \<le> 31"
proof -
  have digits: "\<exists>ds. s = ds @ r \<and> (one_or_two ds \<or> (\<exists>c. ds = [CHR '' '', c] \<and> is_digit c)) \<and>
      v = number (filter is_digit ds) \<and> 1 \<le> v \<and> v \<le> 31"
    if "\<exists>ms. s = ms @ r \<and> one_or_two ms \<and> v = number ms \<and> 1 \<le> v \<and> v \<le> 31"
  proof -
    from that obtain ms where ms: "s = ms @ r" "one_or_two ms" "v = number ms" "1 \<le> v" "v \<le> 31"
      by blast
    from ms(2) have "filter is_digit ms = ms"
      by (simp add: one_or_two_def list_all_iff filter_id_conv)
    with ms show ?thesis by auto
  qed
  from assms have "(v, r) \<in> set (two_digits (\<lambda>a. a = 3) (\<lambda>b. b \<le> 1) s) \<or>
      (v, r) \<in> set (two_digits (\<lambda>a. 1 \<le> a \<and> a \<le> 2) (\<lambda>b. True) s) \<or>
      (v, r) \<in> set (two_digits (\<lambda>a. a = 0) (\<lambda>b. 1 \<le> b) s) \<or>
      (v, r) \<in> set (one_digit (\<lambda>a. 1 \<le> a) s) \<or> (v, r) \<in> set (space_digit s)"
    by (simp add: re_d_def)
  then show ?thesis
  proof (elim disjE)
    assume "(v, r) \<in> set (two_digits (\<lambda>a. a = 3) (\<lambda>b. b \<le> 1) s)"
    then have "\<exists>ms. s = ms @ r \<and> one_or_two ms \<and> v = number ms \<and> 1 \<le> v \<and> v \<le> 31"
      by (rule two_digits_range) simp
    then show ?thesis by (rule digits)
  next
    assume "(v, r) \<in> set (two_digits (\<lambda>a. 1 \<le> a \<and> a \<le> 2) (\<lambda>b. True) s)"
    then have "\<exists>ms. s = ms @ r \<and> one_or_two ms \<and> v = number ms \<and> 1 \<le> v \<and> v \<le> 31"
      by (rule two_digits_range) simp
    then show ?thesis by (rule digits)
  next
    assume "(v, r) \<in> set (two_digits (\<lambda>a. a = 0) (\<lambda>b. 1 \<le> b) s)"
    then have "\<exists>ms. s = ms @ r \<and> one_or_two ms \<and> v = number ms \<and> 1 \<le> v \<and> v \<le> 31"
      by (rule two_digits_range) simp
    then show ?thesis by (rule digits)
  next
    assume "(v, r) \<in> set (one_digit (\<lambda>a. 1 \<le> a) s)"
    then have "\<exists>ms. s = ms @ r \<and> one_or_two ms \<and> v = number ms \<and> 1 \<le> v \<and> v \<le> 31"
      by (rule one_digit_range) simp
    then show ?thesis by (rule digits)
  next
    assume "(v, r) \<in> set (space_digit s)"
    from space_digit_sound [OF this] obtain b where b: "s = CHR '' '' # b # r" "is_digit b"
      "1 \<le> digit_val b" "v = digit_val b"
      by blast
    have "\<not> is_digit CHR '' ''"
      by (simp add: is_digit_def)
    with b digit_val_le [OF b(2)]
    have "s = [CHR '' '', b] @ r \<and> (\<exists>c. [CHR '' '', b] = [CHR '' '', c] \<and> is_digit c) \<and>
        v = number (filter is_digit [CHR '' '', b]) \<and> 1 \<le> v \<and> v \<le> 31"
      by (simp add: number_simps)
    then show ?thesis by blast
  qed
qed

lemma re_H_sound:
  assumes "(v, r) \<in> set (re_H s)"
  shows "\<exists>hs. s = hs @ r \<and> one_or_two hs \<and> v = number hs \<and> 0 \<le> v \<and> v \<le> 23"
proof -
  from assms have "(v, r) \<in> set (two_digits (\<lambda>a. a = 2) (\<lambda>b. b \<le> 3) s) \<or>
      (v, r) \<in> set (two_digits (\<lambda>a. a \<le> 1) (\<lambda>b. True) s) \<or>
      (v, r) \<in> set (one_digit (\<lambda>a. True) s)"
    by (simp add: re_H_def)
  then show ?thesis
  proof (elim disjE)
    assume "(v, r) \<in> set (two_digits (\<lambda>a. a = 2) (\<lambda>b. b \<le> 3) s)"
    then show ?thesis by (rule two_digits_range) simp
  next
    assume "(v, r) \<in> set (two_digits (\<lambda>a. a \<le> 1) (\<lambda>b. True) s)"
    then show ?thesis by (rule two_digits_range) simp
  next
    assume "(v, r) \<in> set (one_digit (\<lambda>a. True) s)"
    then show ?thesis by (rule one_digit_range) simp
  qed
qed

lemma re_M_sound:
  assumes "(v, r) \<in> set (re_M s)"
  shows "\<exists>ns. s = ns @ r \<and> one_or_two ns \<and> v = number ns \<and> 0 \<le> v \<and> v \<le> 59"
proof -
  from assms have "(v, r) \<in> set (two_digits (\<lambda>a. a \<le> 5) (\<lambda>b. True) s) \<or>
      (v, r) \<in> set (one_digit (\<lambda>a. True) s)"
    by (simp add: re_M_def)
  then show ?thesis
  proof (elim disjE)
    assume "(v, r) \<in> set (two_digits (\<lambda>a. a \<le> 5) (\<lambda>b. True) s)"
    then show ?thesis by (rule two_digits_range) simp
  next
    assume "(v, r) \<in> set (one_digit (\<lambda>a. True) s)"
    then show ?thesis by (rule one_digit_range) simp
  qed
qed

lemma literal_sound: "r \<in> set (literal c s) \<Longrightarrow> s = c # r"
  by (auto simp: literal_def split: list.splits if_splits)

lemma re_spaces_sound:
  "r \<in> set (re_spaces s) \<Longrightarrow> \<exists>ws. s = ws @ r \<and> ws \<noteq> [] \<and> list_all is_space ws"
proof (induction s)
  case Nil
  then show ?case by simp
next
  case (Cons a s)
  then have a: "is_space a" and b: "r \<in> set (re_spaces s) \<or> r = s"
    by (auto split: if_splits)
  from b show ?case
  proof
    assume "r \<in> set (re_spaces s)"
    from Cons.IH [OF this] obtain ws where "s = ws @ r" "list_all is_space ws" by blast
    with a have "a # s = (a # ws) @ r \<and> a # ws \<noteq> [] \<and> list_all is_space (a # ws)"
      by simp
    then show ?thesis by blast
  next
    assume "r = s"
    with a have "a # s = [a] @ r \<and> [a] \<noteq> [] \<and> list_all is_space [a]"
      by simp
    then show ?thesis by blast
  qed
qed

lemma format_regex_sound:
  assumes "((y, m, d, h, n), r) \<in> set (format_regex s)"
  shows "\<exists>ys ms ds ws hs ns.
           s = ys @ ''-'' @ ms @ ''-'' @ ds @ ws @ hs @ '':'' @ ns @ r \<and>
           length ys = 4 \<and> list_all is_digit ys \<and> one_or_two ms \<and>
           (one_or_two ds \<or> (\<exists>c. ds = [CHR '' '', c] \<and> is_digit c)) \<and>
           ws \<noteq> [] \<and> list_all is_space ws \<and> one_or_two hs \<and> one_or_two ns \<and>
           y = number ys \<and> m = number ms \<and> d = number (filter is_digit ds) \<and>
           h = number hs \<and> n = number ns \<and>
           1 \<le> m \<and> m \<le> 12 \<and> 1 \<le> d \<and> d \<le> 31 \<and> h \<le> 23 \<and> n \<le> 59"
proof -
  from assms obtain s1 s2 s3 s4 s5 s6 s7 s8 where
    g: "(y, s1) \<in> set (re_Y s)" "s2 \<in> set (literal CHR ''-'' s1)" "(m, s3) \<in> set (re_m s2)"
      "s4 \<in> set (literal CHR ''-'' s3)" "(d, s5) \<in> set (re_d s4)" "s6 \<in> set (re_spaces s5)"
      "(h, s7) \<in> set (re_H s6)" "s8 \<in> set (literal CHR '':'' s7)" "(n, r) \<in> set (re_M s8)"
    unfolding format_regex_def by (auto simp: List.bind_def)
  from re_Y_sound [OF g(1)] obtain ys where ys: "s = ys @ s1" "length ys = 4"
    "list_all is_digit ys" "y = number ys" by blast
  from re_m_sound [OF g(3)] obtain ms where ms: "s2 = ms @ s3" "one_or_two ms" "m = number ms"
    "1 \<le> m" "m \<le> 12" by blast
  from re_d_sound [OF g(5)] obtain ds where ds: "s4 = ds @ s5"
    "one_or_two ds \<or> (\<exists>c. ds = [CHR '' '', c] \<and> is_digit c)" "d = number (filter is_digit ds)"
    "1 \<le> d" "d \<le> 31" by blast
  from re_spaces_sound [OF g(6)] obtain ws where ws: "s5 = ws @ s6" "ws \<noteq> []"
    "list_all is_space ws" by blast
  from re_H_sound [OF g(7)] obtain hs where hs: "s6 = hs @ s7" "one_or_two hs" "h = number hs"
    "h \<le> 23" by blast
  from re_M_sound [OF g(9)] obtain ns where ns: "s8 = ns @ r" "one_or_two ns" "n = number ns"
    "n \<le> 59" by blast
  have "s = ys @ ''-'' @ ms @ ''-'' @ ds @ ws @ hs @ '':'' @ ns @ r"
    using ys(1) ms(1) ds(1) ws(1) hs(1) ns(1) literal_sound [OF g(2)] literal_sound [OF g(4)]
      literal_sound [OF g(8)]
    by simp
  with ys(2-) ms(2-) ds(2-) ws(2-) hs(2-) ns(2-) show ?thesis by blast
qed

lemma strptime_sound:
  assumes "strptime s = Inr k"
  shows "lenient_format s k"
proof -
  obtain y m d h n where k: "k = (y, m, d, h, n)"
    by (cases k) auto
  from assms k have "((y, m, d, h, n), []) \<in> set (format_regex s)" and
    v: "1 \<le> y" "d \<le> days_in_month y m"
    by (auto simp: strptime_def split: list.splits if_splits)
  from format_regex_sound [OF this(1)] obtain ys ms ds ws hs ns where
    p: "s = ys @ ''-'' @ ms @ ''-'' @ ds @ ws @ hs @ '':'' @ ns @ []"
      "length ys = 4" "list_all is_digit ys" "one_or_two ms"
      "one_or_two ds \<or> (\<exists>c. ds = [CHR '' '', c] \<and> is_digit c)"
      "ws \<noteq> []" "list_all is_space ws" "one_or_two hs" "one_or_two ns"
      "y = number ys" "m = number ms" "d = number (filter is_digit ds)"
      "h = number hs" "n = number ns"
      "1 \<le> m" "m \<le> 12" "1 \<le> d" "h \<le> 23" "n \<le> 59"
    by blast
  have "calendar k"
    using v p(15-) by (simp add: k calendar_def)
  with p(1-14) have "s = ys @ ''-'' @ ms @ ''-'' @ ds @ ws @ hs @ '':'' @ ns \<and>
      length ys = 4 \<and> list_all is_digit ys \<and> one_or_two ms \<and>
      (one_or_two ds \<or> (\<exists>c. ds = [CHR '' '', c] \<and> is_digit c)) \<and>
      ws \<noteq> [] \<and> list_all is_space ws \<and> one_or_two hs \<and> one_or_two ns \<and>
      k = (number ys, number ms, number (filter is_digit ds), number hs, number ns) \<and>
      calendar k"
    by (simp add: k)
  then show ?thesis
    unfolding lenient_format_def by blast
qed

text \<open>
  Conversely the first match of the expression reads all of a string of the format: the
  alternatives that stop early are followed by a character the next group refuses.
\<close>

lemma space_not_digit: "is_space c \<Longrightarrow> \<not> is_digit c"
  by (auto simp: is_space_def is_digit_def)

lemma digit_not_sep:
  assumes "is_digit c"
  shows "c \<noteq> CHR ''-''" and "c \<noteq> CHR '':''" and "c \<noteq> CHR '' ''" and "\<not> is_space c"
  using assms by (auto simp: is_digit_def is_space_def)

lemma sep_not_digit: "\<not> is_digit CHR ''-''" "\<not> is_digit CHR '':''" "\<not> is_digit CHR '' ''"
  by (simp_all add: is_digit_def)

lemma one_or_two_cases:
  assumes "one_or_two ms"
  obtains a where "ms = [a]" "is_digit a" | a b where "ms = [a, b]" "is_digit a" "is_digit b"
proof -
  from assms have d: "list_all is_digit ms" and "length ms = 1 \<or> length ms = 2"
    by (simp_all add: one_or_two_def)
  from this(2) show ?thesis
  proof (elim disjE)
    assume "length ms = 1"
    then obtain a where "ms = [a]"
      by (cases ms) auto
    with d that(1) show ?thesis by simp
  next
    assume "length ms = 2"
    then obtain a b where "ms = [a, b]"
      by (auto simp: length_Suc_conv numeral_eq_Suc)
    with d that(2) show ?thesis by simp
  qed
qed

lemma bind_re_Y_gen:
  assumes "length ys = 4" "list_all is_digit ys"
  shows "List.bind (re_Y (ys @ CHR ''-'' # rest))
           (\<lambda>(y, s). List.bind (literal CHR ''-'' s) (f y)) = f (number ys) rest"
proof -
  from assms(1) obtain a b c d where "ys = [a, b, c, d]"
    by (auto simp: length_Suc_conv numeral_eq_Suc)
  with assms(2) show ?thesis
    by (simp add: re_Y_def literal_def number_simps)
qed

lemma bind_re_m_gen:
  assumes "one_or_two ms" "1 \<le> number ms" "number ms \<le> 12"
  shows "List.bind (re_m (ms @ CHR ''-'' # rest))
           (\<lambda>(m, s). List.bind (literal CHR ''-'' s) (f m)) = f (number ms) rest"
  using assms(1)
proof (cases rule: one_or_two_cases)
  case (1 a)
  with assms(2) show ?thesis
    by (simp add: re_m_def two_digits_def one_digit_def literal_def number_simps sep_not_digit)
next
  case (2 a b)
  with assms(2,3) bind_re_m [of a b rest f] show ?thesis
    by (simp add: number_simps)
qed

lemma bind_re_H_gen:
  assumes "one_or_two hs" "number hs \<le> 23"
  shows "List.bind (re_H (hs @ CHR '':'' # rest))
           (\<lambda>(h, s). List.bind (literal CHR '':'' s) (f h)) = f (number hs) rest"
  using assms(1)
proof (cases rule: one_or_two_cases)
  case (1 a)
  then show ?thesis
    by (simp add: re_H_def two_digits_def one_digit_def literal_def number_simps sep_not_digit)
next
  case (2 a b)
  with assms(2) bind_re_H [of a b rest f] show ?thesis
    by (simp add: number_simps)
qed

lemma bind_re_d_gen:
  assumes "one_or_two ds \<or> (\<exists>c. ds = [CHR '' '', c] \<and> is_digit c)"
    and "1 \<le> number (filter is_digit ds)" "number (filter is_digit ds) \<le> 31"
    and "is_space w"
  shows "List.bind (re_d (ds @ w # rest)) (\<lambda>(d, s). List.bind (re_spaces s) (f d)) =
         List.bind (re_spaces (w # rest)) (f (number (filter is_digit ds)))"
  using assms(1)
proof
  assume "one_or_two ds"
  then show ?thesis
  proof (cases rule: one_or_two_cases)
    case (1 a)
    with assms(2,4) space_not_digit [OF assms(4)] show ?thesis
      by (simp add: re_d_def two_digits_def one_digit_def space_digit_def number_simps
          digit_not_sep)
  next
    case (2 a b)
    then have v: "1 \<le> 10 * digit_val a + digit_val b" "10 * digit_val a + digit_val b \<le> 31"
      using assms(2,3) by (simp_all add: number_simps)
    then have "digit_val a = 0 \<and> 1 \<le> digit_val b \<or> digit_val a = 1 \<or> digit_val a = 2 \<or>
        digit_val a = 3 \<and> digit_val b \<le> 1"
      using digit_val_le [OF 2(3)] by arith
    then show ?thesis
      using 2 digit_not_sep(3,4) [of a] digit_not_sep(4) [of b] assms(4)
      by (auto simp: re_d_def two_digits_def one_digit_def space_digit_def number_simps)
  qed
next
  assume "\<exists>c. ds = [CHR '' '', c] \<and> is_digit c"
  then obtain c where c: "ds = [CHR '' '', c]" "is_digit c"
    by blast
  with assms(2) show ?thesis
    by (simp add: re_d_def two_digits_def one_digit_def space_digit_def number_simps
        sep_not_digit)
qed

lemma bind_re_spaces:
  assumes "list_all is_space ws" "ws \<noteq> []" "is_digit h" "\<And>w r. is_space w \<Longrightarrow> g (w # r) = []"
  shows "List.bind (re_spaces (ws @ h # rest)) g = g (h # rest)"
  using assms(1,2)
proof (induction ws)
  case Nil
  then show ?case by simp
next
  case (Cons w ws)
  then have w: "is_space w" and ws: "list_all is_space ws"
    by simp_all
  show ?case
  proof (cases "ws = []")
    case True
    with w digit_not_sep(4) [OF assms(3)] show ?thesis
      by simp
  next
    case False
    then obtain w' ws' where "ws = w' # ws'"
      by (cases ws) auto
    with ws have "g (ws @ h # rest) = []"
      by (simp add: assms(4))
    with Cons.IH [OF ws False] w show ?thesis
      by (simp add: List.bind_def)
  qed
qed

lemma re_H_space: "is_space w \<Longrightarrow> re_H (w # r) = []"
  by (simp add: re_H_def two_digits_def one_digit_def space_not_digit split: list.splits)

lemma re_M_end:
  assumes "one_or_two ns" "number ns \<le> 59"
  shows "\<exists>more. re_M ns = (number ns, []) # more"
  using assms(1)
proof (cases rule: one_or_two_cases)
  case (1 a)
  then show ?thesis
    by (simp add: re_M_def two_digits_def one_digit_def number_simps)
next
  case (2 a b)
  with assms(2) re_M_two [of a b] show ?thesis
    by (simp add: number_simps)
qed

lemma strptime_complete:
  assumes "lenient_format s k"
  shows "strptime s = Inr k"
proof -
  from assms obtain ys ms ds ws hs ns where
    s: "s = ys @ ''-'' @ ms @ ''-'' @ ds @ ws @ hs @ '':'' @ ns"
    and p: "length ys = 4" "list_all is_digit ys" "one_or_two ms"
      "one_or_two ds \<or> (\<exists>c. ds = [CHR '' '', c] \<and> is_digit c)"
      "ws \<noteq> []" "list_all is_space ws" "one_or_two hs" "one_or_two ns"
    and k: "k = (number ys, number ms, number (filter is_digit ds), number hs, number ns)"
    and c: "calendar k"
    unfolding lenient_format_def by blast
  define Y M D H N where "Y = number ys" and "M = number ms"
    and "D = number (filter is_digit ds)" and "H = number hs" and "N = number ns"
  from c have r: "1 \<le> Y" "1 \<le> M" "M \<le> 12" "1 \<le> D" "D \<le> days_in_month Y M" "H \<le> 23" "N \<le> 59"
    by (simp_all add: k calendar_def Y_def M_def D_def H_def N_def)
  have "days_in_month Y M \<le> 31"
    by (simp add: days_in_month_def)
  with r(5) have D31: "D \<le> 31" by simp
  from p(5) obtain w ws' where ws: "ws = w # ws'"
    by (cases ws) auto
  with p(6) have w: "is_space w" by simp
  from p(7) obtain h hs' where hs: "hs = h # hs'" "is_digit h"
    by (cases rule: one_or_two_cases) auto
  define F4 where "F4 = (\<lambda>s8. List.bind (re_M s8)
      (\<lambda>(minute, s9). [((Y, M, D, H, minute), s9)]))"
  define F3 where "F3 = (\<lambda>s6. List.bind (re_H s6)
      (\<lambda>(hour, s7). List.bind (literal CHR '':'' s7)
        (\<lambda>s8. List.bind (re_M s8) (\<lambda>(minute, s9). [((Y, M, D, hour, minute), s9)]))))"
  have "format_regex s =
      List.bind (re_spaces (ws @ hs @ '':'' @ ns)) F3"
    unfolding format_regex_def s F3_def
    using p(1-4) r(2,3,4) D31 w
    by (simp add: bind_re_Y_gen bind_re_m_gen bind_re_d_gen ws Y_def M_def D_def)
  also have "\<dots> = F3 (hs @ '':'' @ ns)"
    using bind_re_spaces [OF p(6) p(5) hs(2), of F3 "hs' @ '':'' @ ns"]
    by (simp add: hs(1) F3_def re_H_space)
  also have "\<dots> = F4 ns"
    unfolding F3_def F4_def using p(7) r(6)
    by (simp add: bind_re_H_gen H_def)
  finally have "format_regex s = F4 ns" .
  moreover from re_M_end [OF p(8)] r(7) obtain more where "re_M ns = (N, []) # more"
    by (auto simp: N_def)
  ultimately have "\<exists>more. format_regex s = ((Y, M, D, H, N), []) # more"
    by (simp add: F4_def)
  then show ?thesis
    using r(1,5) by (auto simp: strptime_def k Y_def M_def D_def H_def N_def)
qed

lemma strptime_lenient: "strptime s = Inr k \<longleftrightarrow> lenient_format s k"
  using strptime_sound strptime_complete by blast

section \<open>Facts about sort_events\<close>

text \<open>The order of the keys is the order of time.\<close>

lemma datetime_le_iff:
  "((y, m, d, h, n) \<le> ((y', m', d', h', n') :: datetime)) \<longleftrightarrow>
     y < y' \<or> y = y' \<and> (m < m' \<or> m = m' \<and> (d < d' \<or> d = d' \<and> (h < h' \<or> h = h' \<and> n \<le> n')))"
  by auto

lemma keys_of_Inr:
  "\<forall>x\<in>set xs. key_of x = Inr (k x) \<Longrightarrow> keys_of xs = Inr (map k xs)"
  by (induction xs) auto

lemma keys_of_Inl:
  "\<exists>x\<in>set xs. key_of x = Inl ValueError \<Longrightarrow> keys_of xs = Inl ValueError"
proof (induction xs)
  case Nil
  then show ?case by simp
next
  case (Cons x xs)
  show ?case
  proof (cases "key_of x")
    case (Inl e)
    then show ?thesis by (cases e) simp
  next
    case (Inr k)
    with Cons.prems have "\<exists>x\<in>set xs. key_of x = Inl ValueError" by auto
    with Cons.IH Inr show ?thesis by simp
  qed
qed

lemma keys_of_InrD:
  "keys_of xs = Inr ks \<Longrightarrow> \<forall>x\<in>set xs. key_of x = Inr (projr (key_of x))"
  by (induction xs arbitrary: ks) (auto split: sum.splits)

lemma insort_key_map:
  "insort_key f (g x) (map g ys) = map g (insort_key (\<lambda>x. f (g x)) x ys)"
  by (induction ys) auto

lemma sort_key_map:
  "sort_key f (map g xs) = map g (sort_key (\<lambda>x. f (g x)) xs)"
  by (induction xs) (simp_all add: sort_key_simps insort_key_map)

lemma zip_map_self: "zip (map k xs) xs = map (\<lambda>x. (k x, x)) xs"
  by (induction xs) auto

lemma sort_events_Inr:
  assumes "\<forall>x\<in>set xs. key_of x = Inr (k x)"
  shows "sort_events xs = Inr (sort_key k xs)"
proof -
  have "map snd (sort_key fst (zip (map k xs) xs)) = sort_key k xs"
    by (simp add: zip_map_self sort_key_map comp_def)
  then show ?thesis
    by (simp add: sort_events_def keys_of_Inr [OF assms])
qed

lemma sort_events_again:
  assumes "sort_events xs = Inr ys"
  shows "sort_events ys = Inr ys"
proof -
  define k where "k = (\<lambda>x. projr (key_of x))"
  from assms obtain ks where "keys_of xs = Inr ks"
    by (auto simp: sort_events_def split: sum.splits)
  then have keys: "\<forall>x\<in>set xs. key_of x = Inr (k x)"
    unfolding k_def by (rule keys_of_InrD)
  have ys: "ys = sort_key k xs"
    using assms sort_events_Inr [OF keys] by simp
  then have "\<forall>x\<in>set ys. key_of x = Inr (k x)"
    using keys by simp
  then have "sort_events ys = Inr (sort_key k ys)"
    by (rule sort_events_Inr)
  moreover have "sort_key k ys = ys"
    unfolding ys by (rule sort_key_id_if_sorted) (rule sorted_sort_key)
  ultimately show ?thesis by simp
qed

lemma sorted_map_Some: "sorted (map Some zs) = sorted zs"
  by (induction zs) auto

lemma key_of_calendar:
  assumes "spec_key x = Some c"
  shows "key_of x = Inr c"
proof -
  from assms obtain year month day hour minute where
    "spec_date (date x) = Some (year, month, day)" "spec_time (time x) = Some (hour, minute)"
    "c = (year, month, day, hour, minute)"
    by (auto simp: spec_key_def split: option.splits)
  then show ?thesis
    unfolding key_of_def using strptime_iso [of "date x" year month day "time x" hour minute]
    by simp
qed

lemma sort_events_calendar:
  assumes "\<forall>x\<in>set xs. spec_key x \<noteq> None"
  shows "\<exists>ys. sort_events xs = Inr ys \<and> mset ys = mset xs \<and> sorted (map spec_key ys) \<and>
           (\<forall>c. filter (\<lambda>x. spec_key x = c) ys = filter (\<lambda>x. spec_key x = c) xs)"
proof -
  define k where "k = (\<lambda>x. the (spec_key x))"
  have cal: "spec_key x = Some (k x)" if "x \<in> set xs" for x
    using assms that by (auto simp: k_def)
  then have "\<forall>x\<in>set xs. key_of x = Inr (k x)"
    by (simp add: key_of_calendar)
  then have s: "sort_events xs = Inr (sort_key k xs)"
    by (rule sort_events_Inr)
  have "map spec_key (sort_key k xs) = map Some (map k (sort_key k xs))"
    using cal by simp
  then have sorted: "sorted (map spec_key (sort_key k xs))"
    by (simp only: sorted_map_Some sorted_sort_key)
  have stable: "filter (\<lambda>x. spec_key x = c) (sort_key k xs) =
      filter (\<lambda>x. spec_key x = c) xs" for c
  proof (cases c)
    case None
    have "filter (\<lambda>x. spec_key x = None) (sort_key k xs) = []"
      using assms by (auto simp: filter_empty_conv)
    moreover have "filter (\<lambda>x. spec_key x = None) xs = []"
      using assms by (auto simp: filter_empty_conv)
    ultimately show ?thesis using None by simp
  next
    case (Some d)
    have "filter (\<lambda>x. spec_key x = Some d) (sort_key k xs) =
        filter (\<lambda>x. k x = d) (sort_key k xs)"
      by (rule filter_cong) (auto simp: cal)
    also have "\<dots> = filter (\<lambda>x. k x = d) xs"
      by (rule sort_key_stable)
    also have "\<dots> = filter (\<lambda>x. spec_key x = Some d) xs"
      by (rule filter_cong) (auto simp: cal)
    finally show ?thesis using Some by simp
  qed
  from s sorted stable show ?thesis by simp
qed

lemma keys_of_Inl_iff:
  "keys_of xs = Inl ValueError \<longleftrightarrow> (\<exists>x\<in>set xs. key_of x = Inl ValueError)"
proof (induction xs)
  case Nil
  then show ?case by simp
next
  case (Cons x xs)
  show ?case
  proof (cases "key_of x")
    case (Inl e)
    then show ?thesis by (cases e) simp
  next
    case (Inr k)
    with Cons.IH show ?thesis
      by (cases "keys_of xs") auto
  qed
qed

lemma sort_events_Inl_iff:
  "sort_events xs = Inl ValueError \<longleftrightarrow> (\<exists>x\<in>set xs. key_of x = Inl ValueError)"
  using keys_of_Inl_iff [of xs]
  by (cases "keys_of xs") (auto simp: sort_events_def)

lemma key_of_Inl_iff:
  "key_of x = Inl ValueError \<longleftrightarrow> (\<forall>k. \<not> lenient_format (date x @ '' '' @ time x) k)"
proof
  assume "key_of x = Inl ValueError"
  then show "\<forall>k. \<not> lenient_format (date x @ '' '' @ time x) k"
    using strptime_complete [of "date x @ '' '' @ time x"] by (auto simp: key_of_def)
next
  assume a: "\<forall>k. \<not> lenient_format (date x @ '' '' @ time x) k"
  show "key_of x = Inl ValueError"
  proof (cases "key_of x")
    case (Inl e)
    then show ?thesis by (cases e) simp
  next
    case (Inr k)
    then have "lenient_format (date x @ '' '' @ time x) k"
      unfolding key_of_def by (rule strptime_sound)
    with a show ?thesis by blast
  qed
qed

section \<open>Facts about the filter loop\<close>

lemma filter_loop_filter:
  "filter_loop q c evs acc =
   acc @ filter (\<lambda>x. matches_search q x \<and> matches_category c x) evs"
  by (induction evs arbitrary: acc) auto

lemma filtered_events_filter:
  "filtered_events evs q c = filter (\<lambda>x. matches_search q x \<and> matches_category c x) evs"
  by (simp add: filtered_events_def filter_loop_filter)

lemma lower_Nil_iff: "lower q = [] \<longleftrightarrow> q = []"
  by (simp add: lower_def)

section \<open>Evaluation of the examples\<close>

lemmas parse_defs =
  strptime_def format_regex_def re_Y_def re_m_def re_d_def re_H_def re_M_def literal_def
  two_digits_def one_digit_def space_digit_def is_digit_def digit_val_def is_space_def
  days_in_month_def is_leap_def

lemmas example_defs = team_sync_def art_workshop_def with_id_def

text \<open>
  \<open>strptime\<close> accepts more than the well-formed strings: a month, day or hour of one
  digit is read as well. It rejects a day that the month does not have.
\<close>

lemma strptime_unpadded: "strptime ''2024-5-1 9:05'' = Inr (2024, 5, 1, 9, 5)"
  by (simp add: parse_defs)

lemma spec_date_unpadded: "spec_date ''2024-5-1'' = None"
  by simp

lemma strptime_leap_day:
  "strptime ''2023-02-29 10:00'' = Inl ValueError"
  "strptime ''2024-02-29 10:00'' = Inr (2024, 2, 29, 10, 0)"
  by (simp_all add: parse_defs)

lemma sort_events_mset:
  assumes "sort_events xs = Inr ys"
  shows "mset ys = mset xs"
proof -
  from assms obtain ks where "keys_of xs = Inr ks"
    by (auto simp: sort_events_def split: sum.splits)
  then have "\<forall>x\<in>set xs. key_of x = Inr (projr (key_of x))"
    by (rule keys_of_InrD)
  from sort_events_Inr [OF this] assms show ?thesis by auto
qed

lemma spec_key_team_sync: "spec_key (with_id team_sync i) = Some (2024, 5, 1, 9, 0)"
  by (simp add: spec_key_def example_defs is_digit_def digit_val_def days_in_month_def
      is_leap_def)

lemma spec_key_art_workshop:
  "spec_key (with_id art_workshop i) = Some (2024, 4, 20, 14, 0)"
  by (simp add: spec_key_def example_defs is_digit_def digit_val_def days_in_month_def
      is_leap_def)

lemma key_of_soon: "key_of (with_id (team_sync\<lparr>date := ''soon''\<rparr>) 1) = Inl ValueError"
  by (simp add: key_of_def example_defs parse_defs)

lemma sort_two_events:
  "sort_events two_events = Inr [with_id art_workshop 2, with_id team_sync 1]"
proof -
  have "keys_of two_events = Inr [(2024, 5, 1, 9, 0), (2024, 4, 20, 14, 0)]"
    by (simp add: two_events_def key_of_calendar spec_key_team_sync spec_key_art_workshop)
  then show ?thesis
    by (simp add: sort_events_def two_events_def)
qed

lemma sort_tied_events:
  "sort_events tied_events = Inr [with_id art_workshop 2, with_id team_sync 1, with_id team_sync 3]"
proof -
  have "keys_of tied_events = Inr [(2024, 5, 1, 9, 0), (2024, 4, 20, 14, 0), (2024, 5, 1, 9, 0)]"
    by (simp add: tied_events_def key_of_calendar spec_key_team_sync spec_key_art_workshop)
  then show ?thesis
    by (simp add: sort_events_def tied_events_def)
qed

lemma key_of_unpadded: "key_of unpadded_event = Inr (2024, 5, 1, 9, 5)"
  by (simp add: key_of_def unpadded_event_def example_defs parse_defs)

lemma spec_key_unpadded: "spec_key unpadded_event = None"
  by (simp add: spec_key_def unpadded_event_def example_defs)

lemma sort_unpadded: "sort_events [unpadded_event] = Inr [unpadded_event]"
  by (simp add: sort_events_def key_of_unpadded)

section \<open>Sorting by date and time\<close>

text \<open>
  Claim C5, as amended. On a list whose events all have a well-formed date and time,
  \<open>sort_events\<close> returns a list with the same events (as a multiset), ascending in the
  calendar key, in which the events of any one key stand in the order they had in the
  input. \<open>sort_events\<close> fails with \<open>ValueError\<close>, the malformed-date error of the
  program, exactly when the date and time of some event, joined by a space, are not
  read by \<open>strptime\<close>'s format.
\<close>
theorem sort_events_sorts:
  "((\<forall>x\<in>set xs. spec_key x \<noteq> None) \<longrightarrow>
      (\<exists>ys. sort_events xs = Inr ys \<and> mset ys = mset xs \<and> sorted (map spec_key ys) \<and>
         (\<forall>c. filter (\<lambda>x. spec_key x = c) ys = filter (\<lambda>x. spec_key x = c) xs))) \<and>
   (sort_events xs = Inl ValueError \<longleftrightarrow>
      (\<exists>x\<in>set xs. \<forall>k. \<not> lenient_format (date x @ '' '' @ time x) k))"
proof (intro conjI impI)
  assume "\<forall>x\<in>set xs. spec_key x \<noteq> None"
  then show "\<exists>ys. sort_events xs = Inr ys \<and> mset ys = mset xs \<and> sorted (map spec_key ys) \<and>
      (\<forall>c. filter (\<lambda>x. spec_key x = c) ys = filter (\<lambda>x. spec_key x = c) xs)"
    by (rule sort_events_calendar)
next
  show "sort_events xs = Inl ValueError \<longleftrightarrow>
      (\<exists>x\<in>set xs. \<forall>k. \<not> lenient_format (date x @ '' '' @ time x) k)"
    by (simp only: sort_events_Inl_iff key_of_Inl_iff)
qed

text \<open>
  C5 at the list of Team Sync (1 May) and Art Workshop (20 April), which is sorted to
  April before May; at a list with the date \<open>soon\<close>, which no format reads; and at an
  event without leading zeros, which the format reads.
\<close>
theorem sort_events_sorts_witness:
  "spec_key (with_id team_sync 1) \<noteq> None \<and> spec_key (with_id art_workshop 2) \<noteq> None \<and>
   (\<exists>ys. sort_events two_events = Inr ys \<and> mset ys = mset two_events \<and>
      sorted (map spec_key ys) \<and>
      (\<forall>c. filter (\<lambda>x. spec_key x = c) ys = filter (\<lambda>x. spec_key x = c) two_events)) \<and>
   sort_events two_events = Inr [with_id art_workshop 2, with_id team_sync 1] \<and>
   (\<forall>k. \<not> lenient_format ''soon 09:00'' k) \<and>
   sort_events malformed_events = Inl ValueError \<and>
   lenient_format ''2024-5-1 9:05'' (2024, 5, 1, 9, 5) \<and>
   sort_events [unpadded_event] \<noteq> Inl ValueError"
proof -
  have h1: "\<forall>x\<in>set two_events. spec_key x \<noteq> None"
    by (simp add: two_events_def spec_key_team_sync spec_key_art_workshop)
  have soon: "\<forall>k. \<not> lenient_format ''soon 09:00'' k"
    using key_of_soon key_of_Inl_iff [of "with_id (team_sync\<lparr>date := ''soon''\<rparr>) 1"]
    by (simp add: example_defs)
  then have h2: "\<exists>x\<in>set malformed_events.
      \<forall>k. \<not> lenient_format (date x @ '' '' @ time x) k"
    by (simp add: malformed_events_def example_defs)
  have len: "lenient_format ''2024-5-1 9:05'' (2024, 5, 1, 9, 5)"
    using strptime_unpadded by (rule strptime_sound)
  have lx: "lenient_format (date unpadded_event @ '' '' @ time unpadded_event) (2024, 5, 1, 9, 5)"
    using key_of_unpadded unfolding key_of_def by (rule strptime_sound)
  have h3: "\<not> (\<exists>x\<in>set [unpadded_event].
      \<forall>k. \<not> lenient_format (date x @ '' '' @ time x) k)"
  proof
    assume "\<exists>x\<in>set [unpadded_event]. \<forall>k. \<not> lenient_format (date x @ '' '' @ time x) k"
    then have "\<forall>k. \<not> lenient_format (date unpadded_event @ '' '' @ time unpadded_event) k"
      by simp
    with lx show False by blast
  qed
  note c1 = sort_events_sorts [of two_events, THEN conjunct1, THEN mp, OF h1]
  note c2 = sort_events_sorts [of malformed_events, THEN conjunct2, THEN iffD2, OF h2]
  have c3: "sort_events [unpadded_event] \<noteq> Inl ValueError"
    using sort_events_sorts [of "[unpadded_event]", THEN conjunct2] h3 by blast
  from c1 c2 c3 soon len sort_two_events show ?thesis
    by (simp add: spec_key_team_sync spec_key_art_workshop)
qed

text \<open>
  Claim C5 as stated fails: the date \<open>2024-5-1\<close> and the time \<open>9:05\<close> are not of the
  forms \<open>YYYY-MM-DD\<close> and \<open>HH:MM\<close>, and still the sort does not fail on them.
\<close>
theorem sort_events_unpadded_counterexample:
  "spec_key unpadded_event = None \<and> sort_events [unpadded_event] = Inr [unpadded_event]"
  by (simp add: spec_key_unpadded sort_unpadded)

text \<open>
  Claim C9. On a list whose events all have a well-formed date and time, sorting
  succeeds, sorting the result again returns it unchanged, and the events of any one key
  keep the order they had in the input.
\<close>
theorem sort_events_idempotent:
  assumes "\<forall>x\<in>set xs. spec_key x \<noteq> None"
  shows "\<exists>ys. sort_events xs = Inr ys \<and> sort_events ys = Inr ys \<and>
           (\<forall>c. filter (\<lambda>x. spec_key x = c) ys = filter (\<lambda>x. spec_key x = c) xs)"
proof -
  from sort_events_calendar [OF assms] obtain ys where ys: "sort_events xs = Inr ys"
    "\<forall>c. filter (\<lambda>x. spec_key x = c) ys = filter (\<lambda>x. spec_key x = c) xs"
    by blast
  from ys(1) have "sort_events ys = Inr ys"
    by (rule sort_events_again)
  with ys show ?thesis by blast
qed

text \<open>
  The hypothesis of C9 at a list where events 1 and 3 have the same date and time: they
  stay in this order, and sorting the result again changes nothing.
\<close>
theorem sort_events_idempotent_witness:
  "spec_key (with_id team_sync 1) \<noteq> None \<and> spec_key (with_id art_workshop 2) \<noteq> None \<and>
   spec_key (with_id team_sync 3) \<noteq> None \<and>
   sort_events tied_events = Inr [with_id art_workshop 2, with_id team_sync 1, with_id team_sync 3] \<and>
   sort_events [with_id art_workshop 2, with_id team_sync 1, with_id team_sync 3] =
     Inr [with_id art_workshop 2, with_id team_sync 1, with_id team_sync 3]"
proof -
  have h: "\<forall>x\<in>set tied_events. spec_key x \<noteq> None"
    by (simp add: tied_events_def spec_key_team_sync spec_key_art_workshop)
  from sort_events_idempotent [OF h] sort_tied_events show ?thesis
    by (auto simp: spec_key_team_sync spec_key_art_workshop)
qed

section \<open>Search and category filter\<close>

text \<open>
  Claim C4. The filter returns, in the order of the list, exactly the events whose
  category passes (the filter is \<open>All Categories\<close> or is the event's category) and whose
  text passes (the query is empty, or its lower-case form occurs in the lower-case
  title, description or location). For an event with empty description and location a
  non-empty query passes exactly when it occurs in the title. The filter is a total
  function, so no field, empty or not, makes it fail; and when the sort that follows
  succeeds, the list shown has the same events as the filter returned.
\<close>
theorem search_and_filter_matches:
  "filtered_events all_events q c =
     filter (\<lambda>x. (c = ''All Categories'' \<or> category x = c) \<and>
                 (q = [] \<or> sublist (lower q) (lower (title x)) \<or>
                  sublist (lower q) (lower (description x)) \<or>
                  sublist (lower q) (lower (location x)))) all_events \<and>
   (\<forall>x\<in>set all_events. q \<noteq> [] \<and> description x = [] \<and> location x = [] \<longrightarrow>
      (x \<in> set (filtered_events all_events q c) \<longleftrightarrow>
       (c = ''All Categories'' \<or> category x = c) \<and> sublist (lower q) (lower (title x)))) \<and>
   (\<forall>ys. sorted_events all_events q c = Inr ys \<longrightarrow>
      mset ys = mset (filtered_events all_events q c))"
proof (intro conjI ballI allI impI)
  have "matches_search q x \<longleftrightarrow>
      q = [] \<or> sublist (lower q) (lower (title x)) \<or>
      sublist (lower q) (lower (description x)) \<or> sublist (lower q) (lower (location x))" for x
    by (cases "q = []") (auto simp: matches_search_def lower_def)
  then show "filtered_events all_events q c =
     filter (\<lambda>x. (c = ''All Categories'' \<or> category x = c) \<and>
                 (q = [] \<or> sublist (lower q) (lower (title x)) \<or>
                  sublist (lower q) (lower (description x)) \<or>
                  sublist (lower q) (lower (location x)))) all_events"
    by (simp add: filtered_events_filter matches_category_def conj_commute)
next
  fix x assume x: "x \<in> set all_events" and "q \<noteq> [] \<and> description x = [] \<and> location x = []"
  then have "matches_search q x \<longleftrightarrow> sublist (lower q) (lower (title x))"
    by (auto simp: matches_search_def lower_def)
  with x show "x \<in> set (filtered_events all_events q c) \<longleftrightarrow>
       (c = ''All Categories'' \<or> category x = c) \<and> sublist (lower q) (lower (title x))"
    by (auto simp: filtered_events_filter matches_category_def)
next
  fix ys assume "sorted_events all_events q c = Inr ys"
  then show "mset ys = mset (filtered_events all_events q c)"
    unfolding sorted_events_def by (rule sort_events_mset)
qed

text \<open>
  C4 on the two events: the query \<open>art\<close> finds the workshop only, no meeting contains
  \<open>anything\<close>, and \<open>Sync\<close> finds Team Sync, whose description and location are empty.
\<close>
theorem search_and_filter_matches_witness:
  "filtered_events two_events ''art'' ''All Categories'' = [with_id art_workshop 2] \<and>
   filtered_events two_events ''anything'' ''Meeting'' = [] \<and>
   with_id team_sync 1 \<in> set two_events \<and> ''Sync'' \<noteq> [] \<and>
   description (with_id team_sync 1) = [] \<and> location (with_id team_sync 1) = [] \<and>
   (with_id team_sync 1 \<in> set (filtered_events two_events ''Sync'' ''All Categories'') \<longleftrightarrow>
      (''All Categories'' = ''All Categories'' \<or>
       category (with_id team_sync 1) = ''All Categories'') \<and>
      sublist (lower ''Sync'') (lower (title (with_id team_sync 1)))) \<and>
   sublist (lower ''Sync'') (lower (title (with_id team_sync 1))) \<and>
   sorted_events two_events [] ''All Categories'' =
     Inr [with_id art_workshop 2, with_id team_sync 1] \<and>
   mset [with_id art_workshop 2, with_id team_sync 1] =
     mset (filtered_events two_events [] ''All Categories'')"
proof -
  have f1: "filter (\<lambda>x. (''All Categories'' = ''All Categories'' \<or> category x = ''All Categories'') \<and>
                 (''art'' = [] \<or> sublist (lower ''art'') (lower (title x)) \<or>
                  sublist (lower ''art'') (lower (description x)) \<or>
                  sublist (lower ''art'') (lower (location x)))) two_events =
      [with_id art_workshop 2]"
    by code_simp
  have f2: "filter (\<lambda>x. (''Meeting'' = ''All Categories'' \<or> category x = ''Meeting'') \<and>
                 (''anything'' = [] \<or> sublist (lower ''anything'') (lower (title x)) \<or>
                  sublist (lower ''anything'') (lower (description x)) \<or>
                  sublist (lower ''anything'') (lower (location x)))) two_events = []"
    by code_simp
  have h1: "with_id team_sync 1 \<in> set two_events"
    by (simp add: two_events_def)
  have h2: "''Sync'' \<noteq> [] \<and> description (with_id team_sync 1) = [] \<and>
      location (with_id team_sync 1) = []"
    by (simp add: with_id_def team_sync_def)
  have h3: "sublist (lower ''Sync'') (lower (title (with_id team_sync 1)))"
    by code_simp
  have h4: "sorted_events two_events [] ''All Categories'' =
      Inr [with_id art_workshop 2, with_id team_sync 1]"
    by code_simp
  note c1 = search_and_filter_matches [of two_events "''art''" "''All Categories''",
      THEN conjunct1, unfolded f1]
  note c2 = search_and_filter_matches [of two_events "''anything''" "''Meeting''",
      THEN conjunct1, unfolded f2]
  note c3 = search_and_filter_matches [of two_events "''Sync''" "''All Categories''",
      THEN conjunct2, THEN conjunct1, THEN bspec, OF h1, THEN mp, OF h2]
  note c4 = search_and_filter_matches [of two_events "[]" "''All Categories''",
      THEN conjunct2, THEN conjunct2, THEN spec, THEN mp, OF h4]
  from c1 c2 h1 h2 c3 h3 h4 c4 show ?thesis by (intro conjI) simp_all
qed

end
